theory Spec2Isabelle
  imports Main "HOL-Library.Word" "HOL-Library.Multiset" "HOL-Library.Monad_Syntax"
begin

section \<open>C values: int, int32 arrays, undefined behaviour\<close>

text \<open>
  The program is \<^verbatim>\<open>parallel_merge_sort.c\<close>. Array elements are \<^verbatim>\<open>int32_t\<close>
  (the merges declare the same array as \<^verbatim>\<open>int arr[]\<close>, which is the same 32-bit type on
  the platforms the program targets); they are modelled as 32-bit words and compared
  through \<open>sint\<close>, as the C operators \<^verbatim>\<open><=\<close> and \<^verbatim>\<open><\<close> compare signed values.

  Indices and counters are C \<^verbatim>\<open>int\<close>. They are modelled as mathematical integers, and
  every arithmetic operation of the source goes through \<open>c_int\<close>, which has no result
  when the mathematical result does not fit into 32 bits: signed overflow is undefined
  behaviour in C. In the same way every array access is checked against the extent of the
  array. A function of the model returns \<open>None\<close> exactly when the C execution runs into
  undefined behaviour; \<open>Some\<close> carries the state in which the C function returns.
\<close>

type_synonym int32 = "32 word"

definition INT_MAX :: int where
  "INT_MAX = 2147483647"

definition INT_MIN :: int where
  "INT_MIN = - 2147483648"

definition c_int :: "int \<Rightarrow> int option" where
  "c_int v = (if INT_MIN \<le> v \<and> v \<le> INT_MAX then Some v else None)"

definition c_add :: "int \<Rightarrow> int \<Rightarrow> int option" where
  "c_add a b = c_int (a + b)"

definition c_sub :: "int \<Rightarrow> int \<Rightarrow> int option" where
  "c_sub a b = c_int (a - b)"

text \<open>C division truncates towards zero; division by zero is undefined.\<close>

definition c_div :: "int \<Rightarrow> int \<Rightarrow> int option" where
  "c_div a b = (if b = 0 then None else c_int (sgn a * sgn b * (\<bar>a\<bar> div \<bar>b\<bar>)))"

text \<open>\<^verbatim>\<open>a[i]\<close> as an rvalue and \<^verbatim>\<open>a[i] = v\<close>, for an array of known extent.\<close>

definition load :: "int32 list \<Rightarrow> int \<Rightarrow> int32 option" where
  "load a i = (if 0 \<le> i \<and> i < int (length a) then Some (a ! nat i) else None)"

definition store :: "int32 list \<Rightarrow> int \<Rightarrow> int32 \<Rightarrow> int32 list option" where
  "store a i v = (if 0 \<le> i \<and> i < int (length a) then Some (a[nat i := v]) else None)"

section \<open>is_array_sorted\<close>

text \<open>
  \<^verbatim>\<open>
  int is_array_sorted(int arr[], int n)
  {
      if (n == 1 || n == 0)
          return 1;
      if (arr[n - 1] < arr[n - 2])
          return 0;
      return is_array_sorted(arr, n - 1);
  }
  \<close>
\<close>

function is_array_sorted :: "int32 list \<Rightarrow> int \<Rightarrow> int option" where
  "is_array_sorted arr n =
     (if n = 1 \<or> n = 0 then Some 1
      else do {
        a \<leftarrow> c_sub n 1;
        x \<leftarrow> load arr a;
        b \<leftarrow> c_sub n 2;
        y \<leftarrow> load arr b;
        if sint x < sint y then Some 0
        else do {
          m \<leftarrow> c_sub n 1;
          is_array_sorted arr m
        }
      })"
  by pat_completeness auto
termination
  by (relation "measure (\<lambda>(arr, n). nat n)")
     (auto simp: c_sub_def c_int_def load_def split: if_splits)

declare is_array_sorted.simps [simp del]

section \<open>Temporary run buffers\<close>

text \<open>
  \<^verbatim>\<open>L\<close> and \<^verbatim>\<open>R\<close> are pointers: \<open>Null\<close> when \<^verbatim>\<open>calloc\<close> failed, a block of cells
  otherwise. A cell is \<open>None\<close> while its value is indeterminate (a variable-length array
  before it is written); reading such a cell, or reading or writing through a null pointer
  or outside the block, is undefined.
\<close>

datatype buffer = Null | Buf "int32 option list"

definition load_buf :: "buffer \<Rightarrow> int \<Rightarrow> int32 option" where
  "load_buf b i =
     (case b of
        Null \<Rightarrow> None
      | Buf cells \<Rightarrow> if 0 \<le> i \<and> i < int (length cells) then cells ! nat i else None)"

definition store_buf :: "buffer \<Rightarrow> int \<Rightarrow> int32 \<Rightarrow> buffer option" where
  "store_buf b i v =
     (case b of
        Null \<Rightarrow> None
      | Buf cells \<Rightarrow>
          if 0 \<le> i \<and> i < int (length cells) then Some (Buf (cells[nat i := Some v])) else None)"

text \<open>
  \<^verbatim>\<open>calloc(n, sizeof(int32_t))\<close>: whether the allocator finds the memory is the
  environment's choice \<open>ok\<close>; a negative \<^verbatim>\<open>int\<close> becomes a \<^verbatim>\<open>size_t\<close> no allocator can
  serve. The block is zero-filled.
\<close>

definition calloc :: "bool \<Rightarrow> int \<Rightarrow> buffer" where
  "calloc ok n = (if ok \<and> 0 \<le> n then Buf (replicate (nat n) (Some 0)) else Null)"

text \<open>
  \<^verbatim>\<open>int32_t L[n];\<close> is a variable-length array: its size must be positive, its cells
  start indeterminate.
\<close>

definition vla :: "int \<Rightarrow> buffer option" where
  "vla n = (if 0 < n then Some (Buf (replicate (nat n) None)) else None)"

section \<open>Loops\<close>

text \<open>\<^verbatim>\<open>for (i = i0; i < n; i++) body\<close>, run by one thread.\<close>

function for_loop :: "(int \<Rightarrow> 's \<Rightarrow> 's option) \<Rightarrow> int \<Rightarrow> int \<Rightarrow> 's \<Rightarrow> 's option" where
  "for_loop body i n s =
     (if i < n then do {
        s' \<leftarrow> body i s;
        i' \<leftarrow> c_add i 1;
        for_loop body i' n s'
      } else Some s)"
  by pat_completeness auto
termination
  by (relation "measure (\<lambda>(body, i, n, s). nat (n - i))")
     (auto simp: c_add_def c_int_def split: if_splits)

declare for_loop.simps [simp del]

text \<open>
  \<^verbatim>\<open>#pragma omp for\<close> inside \<^verbatim>\<open>#pragma omp parallel\<close>: the iterations are shared out
  among the threads of the team, each iteration runs once with its own private counter,
  and the construct ends with a barrier. The iterations of the loops below write
  pairwise different cells and read cells no iteration writes, so an execution is
  described by the order \<open>sched\<close> in which the iterations take effect.
\<close>

fun omp_for :: "(int \<Rightarrow> 's \<Rightarrow> 's option) \<Rightarrow> int list \<Rightarrow> 's \<Rightarrow> 's option" where
  "omp_for body [] s = Some s"
| "omp_for body (i # sched) s = do { s' \<leftarrow> body i s; omp_for body sched s' }"

text \<open>A schedule of a loop of \<open>n\<close> iterations runs each of \<open>0, ..., n - 1\<close> once.\<close>

definition is_schedule :: "int \<Rightarrow> int list \<Rightarrow> bool" where
  "is_schedule n sched = (mset sched = mset [0..n - 1])"

section \<open>The two merges\<close>

text \<open>The loop bodies \<^verbatim>\<open>L[i] = arr[left + i];\<close> and \<^verbatim>\<open>R[j] = arr[mid + 1 + j];\<close>\<close>

definition copy_L :: "int32 list \<Rightarrow> int \<Rightarrow> int \<Rightarrow> buffer \<Rightarrow> buffer option" where
  "copy_L arr left i L = do {
     a \<leftarrow> c_add left i;
     v \<leftarrow> load arr a;
     store_buf L i v
   }"

definition copy_R :: "int32 list \<Rightarrow> int \<Rightarrow> int \<Rightarrow> buffer \<Rightarrow> buffer option" where
  "copy_R arr mid j R = do {
     m \<leftarrow> c_add mid 1;
     a \<leftarrow> c_add m j;
     v \<leftarrow> load arr a;
     store_buf R j v
   }"

text \<open>
  The text from \<^verbatim>\<open>i = 0;\<close> to the end of the third \<^verbatim>\<open>while\<close> loop is the same in
  \<^verbatim>\<open>merge_parallel\<close> (lines 59 to 91) and \<^verbatim>\<open>merge_sequential\<close> (lines 122 to 154):
  \<^verbatim>\<open>
    while (i < n1 && j < n2)
    {
        if (L[i] <= R[j]) { arr[k] = L[i]; i++; }
        else              { arr[k] = R[j]; j++; }
        k++;
    }
    while (i < n1) { arr[k] = L[i]; i++; k++; }
    while (j < n2) { arr[k] = R[j]; j++; k++; }
  \<close>
  The state of the first loop is \<open>(arr, i, j, k)\<close>.
\<close>

function interleave ::
  "buffer \<Rightarrow> buffer \<Rightarrow> int \<Rightarrow> int \<Rightarrow> int32 list \<times> int \<times> int \<times> int \<Rightarrow>
   (int32 list \<times> int \<times> int \<times> int) option" where
  "interleave L R n1 n2 (arr, i, j, k) =
     (if i < n1 \<and> j < n2 then do {
        x \<leftarrow> load_buf L i;
        y \<leftarrow> load_buf R j;
        (arr', i', j') \<leftarrow>
          (if sint x \<le> sint y then do {
             v \<leftarrow> load_buf L i;
             arr' \<leftarrow> store arr k v;
             i' \<leftarrow> c_add i 1;
             Some (arr', i', j)
           } else do {
             v \<leftarrow> load_buf R j;
             arr' \<leftarrow> store arr k v;
             j' \<leftarrow> c_add j 1;
             Some (arr', i, j')
           });
        k' \<leftarrow> c_add k 1;
        interleave L R n1 n2 (arr', i', j', k')
      } else Some (arr, i, j, k))"
  by pat_completeness auto
termination
  by (relation "measure (\<lambda>(L, R, n1, n2, arr, i, j, k). nat (n1 - i) + nat (n2 - j))")
     (auto simp: c_add_def c_int_def bind_eq_Some_conv split: if_splits)

declare interleave.simps [simp del]

text \<open>The second and the third loop: \<open>B\<close> is \<^verbatim>\<open>L\<close> or \<^verbatim>\<open>R\<close>, the state \<open>(arr, i, k)\<close>.\<close>

function drain :: "buffer \<Rightarrow> int \<Rightarrow> int32 list \<times> int \<times> int \<Rightarrow> (int32 list \<times> int \<times> int) option" where
  "drain B n (arr, i, k) =
     (if i < n then do {
        v \<leftarrow> load_buf B i;
        arr' \<leftarrow> store arr k v;
        i' \<leftarrow> c_add i 1;
        k' \<leftarrow> c_add k 1;
        drain B n (arr', i', k')
      } else Some (arr, i, k))"
  by pat_completeness auto
termination
  by (relation "measure (\<lambda>(B, n, arr, i, k). nat (n - i))")
     (auto simp: c_add_def c_int_def split: if_splits)

declare drain.simps [simp del]

definition merge_back :: "int32 list \<Rightarrow> buffer \<Rightarrow> buffer \<Rightarrow> int \<Rightarrow> int \<Rightarrow> int \<Rightarrow> int32 list option" where
  "merge_back arr L R n1 n2 left = do {
     (arr, i, j, k) \<leftarrow> interleave L R n1 n2 (arr, 0, 0, left);
     (arr, i, k) \<leftarrow> drain L n1 (arr, i, k);
     (arr, j, k) \<leftarrow> drain R n2 (arr, j, k);
     Some arr
   }"

text \<open>
  \<^verbatim>\<open>
  void merge_sequential(int arr[], int left, int mid, int right)
  {
      int i, j, k;
      int n1 = mid - left + 1;
      int n2 = right - mid;
      int32_t L[n1];
      int32_t R[n2];
      for (i = 0; i < n1; i++) L[i] = arr[left + i];
      for (j = 0; j < n2; j++) R[j] = arr[mid + 1 + j];
      ... merge back ...
  }
  \<close>
\<close>

definition merge_sequential :: "int32 list \<Rightarrow> int \<Rightarrow> int \<Rightarrow> int \<Rightarrow> int32 list option" where
  "merge_sequential arr left mid right = do {
     d \<leftarrow> c_sub mid left;
     n1 \<leftarrow> c_add d 1;
     n2 \<leftarrow> c_sub right mid;
     L \<leftarrow> vla n1;
     R \<leftarrow> vla n2;
     L \<leftarrow> for_loop (copy_L arr left) 0 n1 L;
     R \<leftarrow> for_loop (copy_R arr mid) 0 n2 R;
     merge_back arr L R n1 n2 left
   }"

text \<open>
  \<^verbatim>\<open>
  void merge_parallel(int arr[], int left, int mid, int right)
  {
      int i, j, k;
      int n1 = mid - left + 1;
      int n2 = right - mid;
      int32_t *L;
      L = (int32_t *) calloc(n1, sizeof(int32_t));
      int32_t *R;
      R = (int32_t *) calloc(n2, sizeof(int32_t));
  #pragma omp parallel shared(i, j, k, n1, n2)
      {
  #pragma omp for
          for (i = 0; i < n1; i++) L[i] = arr[left + i];
  #pragma omp for
          for (j = 0; j < n2; j++) R[j] = arr[mid + 1 + j];
      }
      ... merge back ...
      free(L);
      free(R);
  }
  \<close>
  Neither pointer is tested after \<^verbatim>\<open>calloc\<close>. What the allocator and the OpenMP runtime
  do during one call is the call's \<open>omp_run\<close>.
\<close>

record omp_run =
  L_alloc :: bool
  R_alloc :: bool
  L_sched :: "int list"
  R_sched :: "int list"

definition merge_parallel :: "omp_run \<Rightarrow> int32 list \<Rightarrow> int \<Rightarrow> int \<Rightarrow> int \<Rightarrow> int32 list option" where
  "merge_parallel run arr left mid right = do {
     d \<leftarrow> c_sub mid left;
     n1 \<leftarrow> c_add d 1;
     n2 \<leftarrow> c_sub right mid;
     let L = calloc (L_alloc run) n1;
     let R = calloc (R_alloc run) n2;
     L \<leftarrow> omp_for (copy_L arr left) (L_sched run) L;
     R \<leftarrow> omp_for (copy_R arr mid) (R_sched run) R;
     merge_back arr L R n1 n2 left
   }"

text \<open>
  A run in which both allocations succeed and both loops are scheduled as OpenMP
  prescribes.
\<close>

definition regular_run :: "omp_run \<Rightarrow> int \<Rightarrow> int \<Rightarrow> int \<Rightarrow> bool" where
  "regular_run run left mid right =
     (L_alloc run \<and> R_alloc run \<and>
      is_schedule (mid - left + 1) (L_sched run) \<and> is_schedule (right - mid) (R_sched run))"

section \<open>The recursive sort driver\<close>

text \<open>
  \<^verbatim>\<open>
  void merge_sort_recursive(int32_t arr[], int left, int right)
  {
      if (left < right)
      {
          int size = right - left;
          int mid = left + size / 2;
          if (size < 2000)
          {
              merge_sort_recursive(arr, left, mid);
              merge_sort_recursive(arr, mid + 1, right);
              merge_sequential(arr, left, mid, right);
          } else
          {
  #pragma omp task
              merge_sort_recursive(arr, left, mid);
  #pragma omp task
              merge_sort_recursive(arr, mid + 1, right);
  #pragma omp taskwait
              merge_parallel(arr, left, mid, right);
          }
      }
  }
  \<close>
  The two tasks work on the disjoint index ranges \<open>[left, mid]\<close> and \<open>[mid + 1, right]\<close>
  of the array and are joined by the \<^verbatim>\<open>taskwait\<close> before the merge starts; the model runs
  them one after the other. The environment \<open>env\<close> gives the \<open>omp_run\<close> of the call of
  \<^verbatim>\<open>merge_parallel\<close> on each triple (one sort merges a triple at most once).
\<close>

function merge_sort_recursive ::
  "(int \<Rightarrow> int \<Rightarrow> int \<Rightarrow> omp_run) \<Rightarrow> int32 list \<Rightarrow> int \<Rightarrow> int \<Rightarrow> int32 list option" where
  "merge_sort_recursive env arr left right =
     (if left < right then do {
        size \<leftarrow> c_sub right left;
        half \<leftarrow> c_div size 2;
        mid \<leftarrow> c_add left half;
        if size < 2000 then do {
          arr \<leftarrow> merge_sort_recursive env arr left mid;
          mid1 \<leftarrow> c_add mid 1;
          arr \<leftarrow> merge_sort_recursive env arr mid1 right;
          merge_sequential arr left mid right
        } else do {
          arr \<leftarrow> merge_sort_recursive env arr left mid;
          mid1 \<leftarrow> c_add mid 1;
          arr \<leftarrow> merge_sort_recursive env arr mid1 right;
          merge_parallel (env left mid right) arr left mid right
        }
      } else Some arr)"
  by pat_completeness auto
termination
  by (relation "measure (\<lambda>(env, arr, left, right). nat (right - left))")
     (auto simp: c_add_def c_sub_def c_div_def c_int_def split: if_splits)

declare merge_sort_recursive.simps [simp del]

definition regular_env :: "(int \<Rightarrow> int \<Rightarrow> int \<Rightarrow> omp_run) \<Rightarrow> bool" where
  "regular_env env = (\<forall>left mid right. regular_run (env left mid right) left mid right)"

section \<open>The harness\<close>

text \<open>
  \<^verbatim>\<open>strtol\<close> belongs to the C library. What a call returns is a \<open>strtol_result\<close>: the
  value, the offset of \<^verbatim>\<open>endptr\<close> from the start of the string, and the value of
  \<^verbatim>\<open>errno\<close> after the call (\<^verbatim>\<open>main\<close> clears it before). \<open>libc_strtol\<close> is the function the
  C standard describes (ISO C, section 7.22.1.4) for base 0 and a 64-bit \<^verbatim>\<open>long\<close>: white
  space, an optional sign, an optional \<^verbatim>\<open>0x\<close> or \<^verbatim>\<open>0\<close> prefix choosing base 16 or 8,
  then the longest run of digits of that base; the characters after the digits are left
  alone.
\<close>

record strtol_result =
  result :: int
  endpos :: nat
  err :: int

definition ERANGE :: int where
  "ERANGE = 34"

definition LONG_MAX :: int where
  "LONG_MAX = 9223372036854775807"

definition LONG_MIN :: int where
  "LONG_MIN = - 9223372036854775808"

definition isspace :: "char \<Rightarrow> bool" where
  "isspace c = (c = CHR '' '' \<or> (9 \<le> (of_char c :: nat) \<and> (of_char c :: nat) \<le> 13))"

definition digit_value :: "char \<Rightarrow> nat option" where
  "digit_value c =
     (let n = (of_char c :: nat) in
      if 48 \<le> n \<and> n \<le> 57 then Some (n - 48)
      else if 97 \<le> n \<and> n \<le> 122 then Some (n - 87)
      else if 65 \<le> n \<and> n \<le> 90 then Some (n - 55)
      else None)"

definition is_digit :: "nat \<Rightarrow> char \<Rightarrow> bool" where
  "is_digit base c = (case digit_value c of None \<Rightarrow> False | Some d \<Rightarrow> d < base)"

definition digits_value :: "nat \<Rightarrow> string \<Rightarrow> int" where
  "digits_value base ds =
     foldl (\<lambda>acc c. acc * int base + (case digit_value c of None \<Rightarrow> 0 | Some d \<Rightarrow> int d)) 0 ds"

definition hex_prefix :: "string \<Rightarrow> bool" where
  "hex_prefix s =
     (case s of
        z # x # d # _ \<Rightarrow> z = CHR ''0'' \<and> (x = CHR ''x'' \<or> x = CHR ''X'') \<and> is_digit 16 d
      | _ \<Rightarrow> False)"

definition libc_strtol :: "string \<Rightarrow> strtol_result" where
  "libc_strtol str =
     (let blank = takeWhile isspace str;
          s1 = dropWhile isspace str;
          negative = (take 1 s1 = ''-'');
          sign = (if take 1 s1 = ''-'' \<or> take 1 s1 = ''+'' then 1 else 0);
          s2 = drop sign s1;
          base = (if hex_prefix s2 then 16 else if take 1 s2 = ''0'' then 8 else 10);
          prefix = (if hex_prefix s2 then 2 else 0);
          ds = takeWhile (is_digit base) (drop prefix s2);
          v = (if negative then - digits_value base ds else digits_value base ds)
      in if ds = [] then \<lparr>result = 0, endpos = 0, err = 0\<rparr>
         else \<lparr>result = (if v > LONG_MAX then LONG_MAX else if v < LONG_MIN then LONG_MIN else v),
               endpos = length blank + sign + prefix + length ds,
               err = (if v > LONG_MAX \<or> v < LONG_MIN then ERANGE else 0)\<rparr>)"

text \<open>
  \<^verbatim>\<open>
  int main(int argc, char **argv)
  {
      if (argc != 2)
      {
          fprintf(stderr, "Error: usage: %s <n>\n", argv[0]);
          return EXIT_FAILURE;
      }
      errno = 0;
      char *str = argv[1];
      char *endptr;
      long n = strtol(str, &endptr, 0);
      if (errno != 0) { perror("strtol"); return EXIT_FAILURE; }
      if (endptr == str)
      {
          fprintf(stderr, "Error: no digits were found!\n");
          return EXIT_FAILURE;
      }
      if (n < 0)
      {
          fprintf(stderr, "Error: matrix size must not be negative!\n");
          return EXIT_FAILURE;
      }
      int32_t *arr;
      arr = (int32_t *) calloc(n, sizeof(int32_t));
      if (arr == NULL) { printf("MALLOC ERROR\n"); return EXIT_FAILURE; }
      srand(0);
      ...
  #pragma omp parallel
      {
          unsigned int my_seed = omp_get_thread_num();
  #pragma omp for
          for (int i = 0; i < n; i++) { arr[i] = rand_r(&my_seed) / 10000000; }
      }
      ... the array is printed ...
      merge_sort_recursive(arr, 0, n - 1);
      ... the array is printed ...
      assert(is_array_sorted(arr, n));
      printf("time: %2.2f seconds\n", end_time - start_time);
      return EXIT_SUCCESS;
  }
  \<close>
  The command line is \<open>argv\<close>, and \<^verbatim>\<open>argc\<close> its length. The \<open>world\<close> is what the program
  cannot decide: the C library's \<^verbatim>\<open>strtol\<close> and \<^verbatim>\<open>strerror\<close>, whether the array can be
  allocated, the value the fill loop stores at each index (it depends on the thread that
  runs the iteration), and the runs of \<^verbatim>\<open>merge_parallel\<close>. The model keeps the diagnostic
  lines and the way the program ends; the listing of the array and the timing line are
  left out. The counter of the fill loop is an \<^verbatim>\<open>int\<close> compared with the \<^verbatim>\<open>long n\<close>, so the
  loop overflows its counter when \<open>n\<close> exceeds \<open>INT_MAX\<close>; once it has returned, \<open>n - 1\<close>
  and \<open>n\<close> are converted to \<^verbatim>\<open>int\<close> without change. With an empty \<open>argv\<close> the usage line
  prints the null pointer \<^verbatim>\<open>argv[0]\<close> through \<^verbatim>\<open>%s\<close>.
\<close>

definition EXIT_SUCCESS :: int where
  "EXIT_SUCCESS = 0"

definition EXIT_FAILURE :: int where
  "EXIT_FAILURE = 1"

datatype ending = Return int | Abort

record world =
  strtol :: "string \<Rightarrow> strtol_result"
  strerror :: "int \<Rightarrow> string"
  arr_alloc :: bool
  rand_fill :: "nat \<Rightarrow> int32"
  omp :: "int \<Rightarrow> int \<Rightarrow> int \<Rightarrow> omp_run"

definition main :: "world \<Rightarrow> string list \<Rightarrow> (ending \<times> string list) option" where
  "main w argv =
     (if int (length argv) \<noteq> 2 then
        (case argv of
           [] \<Rightarrow> None
         | prog # _ \<Rightarrow> Some (Return EXIT_FAILURE, [''Error: usage: '' @ prog @ '' <n>'']))
      else
        let str = argv ! 1;
            r = strtol w str;
            n = result r
        in if err r \<noteq> 0 then Some (Return EXIT_FAILURE, [''strtol: '' @ strerror w (err r)])
           else if endpos r = 0 then Some (Return EXIT_FAILURE, [''Error: no digits were found!''])
           else if n < 0 then
             Some (Return EXIT_FAILURE, [''Error: matrix size must not be negative!''])
           else if \<not> arr_alloc w then Some (Return EXIT_FAILURE, [''MALLOC ERROR''])
           else do {
             arr \<leftarrow> for_loop (\<lambda>i a. store a i (rand_fill w (nat i))) 0 n (replicate (nat n) 0);
             arr \<leftarrow> merge_sort_recursive (omp w) arr 0 (n - 1);
             ok \<leftarrow> is_array_sorted arr n;
             if ok = 0 then Some (Abort, []) else Some (Return EXIT_SUCCESS, [])
           })"

section \<open>Functions of the specification\<close>

text \<open>
  The functions below are not code of the program; the theorems describe the program
  through them. \<open>subarray arr left right\<close> is the content of \<^verbatim>\<open>arr[left..right]\<close>
  (empty when \<open>right < left\<close>), \<open>merge_lists\<close> merges two lists by the signed order,
  \<open>merge_tail\<close> is what is left of the three loops of a merge from a state of the first
  loop on, and \<open>exits_with_error\<close> holds of an execution of \<^verbatim>\<open>main\<close> that returns a
  non-zero status after printing diagnostic lines, none of them empty.
\<close>

definition subarray :: "'a list \<Rightarrow> int \<Rightarrow> int \<Rightarrow> 'a list" where
  "subarray xs left right = take (nat (right - left + 1)) (drop (nat left) xs)"

fun merge_lists :: "int32 list \<Rightarrow> int32 list \<Rightarrow> int32 list" where
  "merge_lists (x # xs) (y # ys) =
     (if sint x \<le> sint y then x # merge_lists xs (y # ys) else y # merge_lists (x # xs) ys)"
| "merge_lists [] ys = ys"
| "merge_lists xs [] = xs"

definition merge_tail ::
  "buffer \<Rightarrow> buffer \<Rightarrow> int \<Rightarrow> int \<Rightarrow> int32 list \<times> int \<times> int \<times> int \<Rightarrow> int32 list option" where
  "merge_tail L R n1 n2 st = do {
     (arr, i, j, k) \<leftarrow> interleave L R n1 n2 st;
     (arr, i, k) \<leftarrow> drain L n1 (arr, i, k);
     (arr, j, k) \<leftarrow> drain R n2 (arr, j, k);
     Some arr
   }"

definition exits_with_error :: "(ending \<times> string list) option \<Rightarrow> bool" where
  "exits_with_error out =
     (case out of
        Some (Return status, msgs) \<Rightarrow> status \<noteq> 0 \<and> msgs \<noteq> [] \<and> [] \<notin> set msgs
      | _ \<Rightarrow> False)"

section \<open>Sample runs\<close>

text \<open>
  Concrete environments for the examples. \<open>demo_run\<close> is a run of \<^verbatim>\<open>merge_parallel\<close> on
  two runs of two elements in which the team takes the iterations of the first copy loop
  in the order 1, 0. In \<open>in_order_env\<close> every allocation succeeds and the iterations take
  effect in index order; in \<open>out_of_memory_env\<close> every \<^verbatim>\<open>calloc\<close> of a merge returns the null
  pointer. \<open>libc_world\<close> runs \<^verbatim>\<open>main\<close> with the C library's \<^verbatim>\<open>strtol\<close>.
\<close>

definition demo_run :: omp_run where
  "demo_run = \<lparr>L_alloc = True, R_alloc = True, L_sched = [1, 0], R_sched = [0, 1]\<rparr>"

definition in_order_env :: "int \<Rightarrow> int \<Rightarrow> int \<Rightarrow> omp_run" where
  "in_order_env left mid right =
     \<lparr>L_alloc = True, R_alloc = True, L_sched = [0..mid - left], R_sched = [0..right - mid - 1]\<rparr>"

definition out_of_memory_env :: "int \<Rightarrow> int \<Rightarrow> int \<Rightarrow> omp_run" where
  "out_of_memory_env left mid right = (in_order_env left mid right)\<lparr>L_alloc := False, R_alloc := False\<rparr>"

definition libc_world :: world where
  "libc_world =
     \<lparr>strtol = libc_strtol,
      strerror = (\<lambda>e. if e = ERANGE then ''Numerical result out of range'' else ''Unknown error''),
      arr_alloc = True,
      rand_fill = (\<lambda>i. of_nat ((7 * i) mod 5)),
      omp = in_order_env\<rparr>"

section \<open>Arithmetic and memory accesses within bounds\<close>

lemma c_int_Some: "c_int v = Some n \<Longrightarrow> n = v \<and> INT_MIN \<le> n \<and> n \<le> INT_MAX"
  by (simp add: c_int_def split: if_splits)

lemma c_add_nat: "int (a + b) \<le> INT_MAX \<Longrightarrow> c_add (int a) (int b) = Some (int (a + b))"
  by (simp add: c_add_def c_int_def INT_MIN_def)

lemma c_add_1: "a < b \<Longrightarrow> int b \<le> INT_MAX \<Longrightarrow> c_add (int a) 1 = Some (int (Suc a))"
  by (simp add: c_add_def c_int_def INT_MIN_def)

lemma c_sub_nat: "b \<le> a \<Longrightarrow> int a \<le> INT_MAX \<Longrightarrow> c_sub (int a) (int b) = Some (int (a - b))"
  by (simp add: c_sub_def c_int_def INT_MIN_def)

lemma c_div_2: "0 \<le> a \<Longrightarrow> a \<le> INT_MAX \<Longrightarrow> c_div a 2 = Some (a div 2)"
proof -
  assume a: "0 \<le> a" "a \<le> INT_MAX"
  then have "INT_MIN \<le> a div 2 \<and> a div 2 \<le> INT_MAX"
    unfolding INT_MIN_def INT_MAX_def by presburger
  moreover have "sgn a * sgn 2 * (\<bar>a\<bar> div \<bar>2\<bar>) = a div 2"
    using a by (cases "a = 0") (simp_all add: sgn_if)
  ultimately show ?thesis by (simp add: c_div_def c_int_def)
qed

lemma load_nat: "i < length a \<Longrightarrow> load a (int i) = Some (a ! i)"
  by (simp add: load_def)

lemma store_nat: "i < length a \<Longrightarrow> store a (int i) v = Some (a[i := v])"
  by (simp add: store_def)

lemma load_buf_nat: "i < length xs \<Longrightarrow> load_buf (Buf (map Some xs)) (int i) = Some (xs ! i)"
  by (simp add: load_buf_def)

lemma store_buf_nat: "i < length cells \<Longrightarrow> store_buf (Buf cells) (int i) v = Some (Buf (cells[i := Some v]))"
  by (simp add: store_buf_def)

section \<open>The copy loops\<close>

text \<open>
  A loop whose iteration \<open>i\<close> stores \<open>f i\<close> into cell \<open>i\<close> fills the buffer with
  \<open>f 0, ..., f (n - 1)\<close>, whether one thread runs it in index order or a team runs it in
  the order of a schedule.
\<close>

lemma for_loop_fill:
  assumes body: "\<And>i cells. i < n \<Longrightarrow> length cells = n \<Longrightarrow>
      body (int i) (Buf cells) = Some (Buf (cells[i := Some (f i)]))"
    and "length cells = n" "i \<le> n" "int n \<le> INT_MAX"
  shows "for_loop body (int i) (int n) (Buf cells) =
      Some (Buf (take i cells @ map (\<lambda>i. Some (f i)) [i..<n]))"
  using assms(2,3)
proof (induction "n - i" arbitrary: i cells)
  case 0
  then show ?case by (simp add: for_loop.simps [of _ "int i"])
next
  case (Suc d)
  then have lt: "i < n" by simp
  have nxt: "c_add (int i) 1 = Some (int (Suc i))"
    using lt assms(4) by (rule c_add_1)
  have ih: "for_loop body (int (Suc i)) (int n) (Buf (cells[i := Some (f i)])) =
      Some (Buf (take (Suc i) (cells[i := Some (f i)]) @ map (\<lambda>i. Some (f i)) [Suc i..<n]))"
    using Suc lt by (intro Suc.hyps(1)) simp_all
  have tk: "take (Suc i) (cells[i := Some (f i)]) = take i cells @ [Some (f i)]"
    using lt Suc.prems by (simp add: take_Suc_conv_app_nth)
  show ?case
    using lt Suc.prems
    by (subst for_loop.simps) (simp add: body nxt ih tk upt_conv_Cons del: of_nat_Suc)
qed

lemma omp_for_fill:
  assumes body: "\<And>i cells. i < n \<Longrightarrow> length cells = n \<Longrightarrow>
      body (int i) (Buf cells) = Some (Buf (cells[i := Some (f i)]))"
    and "length cells = n" "\<forall>i\<in>set sched. 0 \<le> i \<and> i < int n"
  shows "omp_for body sched (Buf cells) =
      Some (Buf (map (\<lambda>i. if int i \<in> set sched then Some (f i) else cells ! i) [0..<n]))"
  using assms(2,3)
proof (induction sched arbitrary: cells)
  case Nil
  have "map ((!) cells) [0..<length cells] = cells" by (rule map_nth)
  then show ?case using Nil.prems by simp
next
  case (Cons a sched)
  from Cons.prems have a: "0 \<le> a" "a < int n" by simp_all
  define i where "i = nat a"
  have i: "a = int i" "i < n" using a by (simp_all add: i_def)
  have ih: "omp_for body sched (Buf (cells[i := Some (f i)])) =
      Some (Buf (map (\<lambda>ia. if int ia \<in> set sched then Some (f ia) else cells[i := Some (f i)] ! ia) [0..<n]))"
    using Cons.prems by (intro Cons.IH) simp_all
  show ?case
    using i Cons.prems by (auto simp add: body ih nth_list_update)
qed

lemma is_schedule_set: "is_schedule n sched \<Longrightarrow> set sched = {0..n - 1}"
  unfolding is_schedule_def by (metis set_mset_mset set_upto)

lemma is_schedule_nonempty: "0 < n \<Longrightarrow> is_schedule n sched \<Longrightarrow> sched \<noteq> []"
  using is_schedule_set [of n sched] by auto

lemma omp_for_fill_all:
  assumes body: "\<And>i cells. i < n \<Longrightarrow> length cells = n \<Longrightarrow>
      body (int i) (Buf cells) = Some (Buf (cells[i := Some (f i)]))"
    and "length cells = n" "is_schedule (int n) sched"
  shows "omp_for body sched (Buf cells) = Some (Buf (map (\<lambda>i. Some (f i)) [0..<n]))"
proof -
  have s: "set sched = {0..int n - 1}" using assms(3) by (rule is_schedule_set)
  have "omp_for body sched (Buf cells) =
      Some (Buf (map (\<lambda>i. if int i \<in> set sched then Some (f i) else cells ! i) [0..<n]))"
    using assms(2) s by (intro omp_for_fill body) auto
  also have "map (\<lambda>i. if int i \<in> set sched then Some (f i) else cells ! i) [0..<n] =
      map (\<lambda>i. Some (f i)) [0..<n]"
    using s by auto
  finally show ?thesis .
qed

lemma for_loop_store:
  assumes "length a = n" "i \<le> n" "int n \<le> INT_MAX"
  shows "for_loop (\<lambda>i a. store a i (f (nat i))) (int i) (int n) a =
      Some (take i a @ map f [i..<n])"
  using assms(1,2)
proof (induction "n - i" arbitrary: i a)
  case 0
  then show ?case by (simp add: for_loop.simps [of _ "int i"])
next
  case (Suc d)
  then have lt: "i < n" by simp
  have nxt: "c_add (int i) 1 = Some (int (Suc i))"
    using lt assms(3) by (rule c_add_1)
  have st: "store a (int i) (f i) = Some (a[i := f i])"
    using lt Suc.prems by (simp add: store_nat)
  have ih: "for_loop (\<lambda>i a. store a i (f (nat i))) (int (Suc i)) (int n) (a[i := f i]) =
      Some (take (Suc i) (a[i := f i]) @ map f [Suc i..<n])"
    using Suc lt by (intro Suc.hyps(1)) simp_all
  have tk: "take (Suc i) (a[i := f i]) = take i a @ [f i]"
    using lt Suc.prems by (simp add: take_Suc_conv_app_nth)
  show ?case
    using lt
    by (subst for_loop.simps) (simp add: st nxt ih tk upt_conv_Cons del: of_nat_Suc)
qed

text \<open>
  The same for a loop whose iteration \<open>i\<close> may be undefined: it stores \<open>v\<close> when
  \<open>g i = Some v\<close>. Run by one thread or by a team, the loop is undefined as soon as one
  iteration is, and fills the buffer with the same values otherwise.
\<close>

lemma for_loop_fill_opt:
  assumes body: "\<And>i cells. i < n \<Longrightarrow> length cells = n \<Longrightarrow>
      body (int i) (Buf cells) = map_option (\<lambda>v. Buf (cells[i := Some v])) (g i)"
    and "length cells = n" "i \<le> n" "int n \<le> INT_MAX"
  shows "for_loop body (int i) (int n) (Buf cells) =
      (if \<forall>k\<in>{i..<n}. g k \<noteq> None then Some (Buf (take i cells @ map g [i..<n])) else None)"
  using assms(2,3)
proof (induction "n - i" arbitrary: i cells)
  case 0
  then show ?case by (simp add: for_loop.simps [of _ "int i"])
next
  case (Suc d)
  then have lt: "i < n" by simp
  have nxt: "c_add (int i) 1 = Some (int (Suc i))"
    using lt assms(4) by (rule c_add_1)
  have "{i..<n} = insert i {Suc i..<n}"
    using lt by auto
  then have split: "(\<forall>k\<in>{i..<n}. g k \<noteq> None) \<longleftrightarrow> g i \<noteq> None \<and> (\<forall>k\<in>{Suc i..<n}. g k \<noteq> None)"
    by simp
  show ?case
  proof (cases "g i")
    case None
    then have no: "\<not> (\<forall>k\<in>{i..<n}. g k \<noteq> None)"
      using lt by auto
    show ?thesis
      unfolding if_not_P [OF no]
      using lt Suc.prems by (subst for_loop.simps) (simp add: body None)
  next
    case (Some v)
    have ih: "for_loop body (int (Suc i)) (int n) (Buf (cells[i := Some v])) =
        (if \<forall>k\<in>{Suc i..<n}. g k \<noteq> None
         then Some (Buf (take (Suc i) (cells[i := Some v]) @ map g [Suc i..<n])) else None)"
      using Suc lt by (intro Suc.hyps(1)) simp_all
    have tk: "take (Suc i) (cells[i := Some v]) = take i cells @ [g i]"
      using lt Suc.prems Some by (simp add: take_Suc_conv_app_nth)
    have yes: "(\<forall>k\<in>{i..<n}. g k \<noteq> None) \<longleftrightarrow> (\<forall>k\<in>{Suc i..<n}. g k \<noteq> None)"
      using split Some by simp
    show ?thesis
      unfolding yes
      using lt Suc.prems
      by (subst for_loop.simps) (simp add: body Some nxt ih tk upt_conv_Cons del: of_nat_Suc)
  qed
qed

lemma omp_for_fill_opt:
  assumes body: "\<And>i cells. i < n \<Longrightarrow> length cells = n \<Longrightarrow>
      body (int i) (Buf cells) = map_option (\<lambda>v. Buf (cells[i := Some v])) (g i)"
    and "length cells = n" "\<forall>i\<in>set sched. 0 \<le> i \<and> i < int n"
  shows "omp_for body sched (Buf cells) =
      (if \<forall>k\<in>set sched. g (nat k) \<noteq> None
       then Some (Buf (map (\<lambda>i. if int i \<in> set sched then g i else cells ! i) [0..<n]))
       else None)"
  using assms(2,3)
proof (induction sched arbitrary: cells)
  case Nil
  have "map ((!) cells) [0..<length cells] = cells" by (rule map_nth)
  then show ?case using Nil.prems by simp
next
  case (Cons a sched)
  from Cons.prems have a: "0 \<le> a" "a < int n" by simp_all
  define i where "i = nat a"
  have i: "a = int i" "i < n" using a by (simp_all add: i_def)
  show ?case
  proof (cases "g i")
    case None
    then show ?thesis
      using i Cons.prems by (simp add: body)
  next
    case (Some v)
    have ih: "omp_for body sched (Buf (cells[i := Some v])) =
        (if \<forall>k\<in>set sched. g (nat k) \<noteq> None
         then Some (Buf (map (\<lambda>ia. if int ia \<in> set sched then g ia else cells[i := Some v] ! ia) [0..<n]))
         else None)"
      using Cons.prems by (intro Cons.IH) simp_all
    show ?thesis
      using i Cons.prems Some by (auto simp add: body ih nth_list_update)
  qed
qed

lemma fill_opt_same:
  assumes body: "\<And>i cells. i < n \<Longrightarrow> length cells = n \<Longrightarrow>
      body (int i) (Buf cells) = map_option (\<lambda>v. Buf (cells[i := Some v])) (g i)"
    and "length cells = n" "length cells' = n" "int n \<le> INT_MAX" "is_schedule (int n) sched"
  shows "omp_for body sched (Buf cells) = for_loop body 0 (int n) (Buf cells')"
proof -
  have s: "set sched = {0..int n - 1}" using assms(5) by (rule is_schedule_set)
  have all: "(\<forall>k\<in>set sched. g (nat k) \<noteq> None) \<longleftrightarrow> (\<forall>k\<in>{0..<n}. g k \<noteq> None)"
  proof
    assume l: "\<forall>k\<in>set sched. g (nat k) \<noteq> None"
    show "\<forall>k\<in>{0..<n}. g k \<noteq> None"
    proof
      fix k assume "k \<in> {0..<n}"
      then have "int k \<in> set sched" unfolding s by simp
      with l have "g (nat (int k)) \<noteq> None" by blast
      then show "g k \<noteq> None" by simp
    qed
  next
    assume r: "\<forall>k\<in>{0..<n}. g k \<noteq> None"
    show "\<forall>k\<in>set sched. g (nat k) \<noteq> None"
    proof
      fix k assume "k \<in> set sched"
      then have "nat k \<in> {0..<n}" unfolding s by auto
      with r show "g (nat k) \<noteq> None" by blast
    qed
  qed
  have o: "omp_for body sched (Buf cells) =
      (if \<forall>k\<in>set sched. g (nat k) \<noteq> None
       then Some (Buf (map (\<lambda>i. if int i \<in> set sched then g i else cells ! i) [0..<n]))
       else None)"
    using assms(2) s by (intro omp_for_fill_opt body) auto
  have m: "map (\<lambda>i. if int i \<in> set sched then g i else cells ! i) [0..<n] = map g [0..<n]"
    using s by auto
  have f: "for_loop body (int 0) (int n) (Buf cells') =
      (if \<forall>k\<in>{0..<n}. g k \<noteq> None then Some (Buf (take 0 cells' @ map g [0..<n])) else None)"
    using assms(3,4) by (intro for_loop_fill_opt body) simp_all
  show ?thesis
    unfolding o m all using f by simp
qed

text \<open>
  In the lemmas on a split array, the array is \<open>P @ A @ B @ S\<close>: the prefix before
  \<open>left\<close>, the two runs, and the suffix after \<open>right\<close>.
\<close>

lemma copy_L_cell:
  assumes "length P = l" "i < length A" "int (length (P @ A @ S)) \<le> INT_MAX"
    "i < length cells"
  shows "copy_L (P @ A @ S) (int l) (int i) (Buf cells) = Some (Buf (cells[i := Some (A ! i)]))"
proof -
  have a: "c_add (int l) (int i) = Some (int (l + i))"
    using assms by (intro c_add_nat) simp
  have b: "load (P @ A @ S) (int (l + i)) = Some (A ! i)"
    using assms by (subst load_nat) (simp_all add: nth_append)
  show ?thesis
    by (simp only: copy_L_def a b bind.bind_lunit store_buf_nat [OF assms(4)])
qed

lemma copy_R_cell:
  assumes "length P = Suc m" "j < length B" "int (length (P @ B @ S)) \<le> INT_MAX"
    "j < length cells"
  shows "copy_R (P @ B @ S) (int m) (int j) (Buf cells) = Some (Buf (cells[j := Some (B ! j)]))"
proof -
  have m1: "c_add (int m) 1 = Some (int (Suc m))"
    using assms by (intro c_add_1 [of m "length (P @ B @ S)"]) simp_all
  have a: "c_add (int (Suc m)) (int j) = Some (int (Suc m + j))"
    using assms by (intro c_add_nat) simp
  have b: "load (P @ B @ S) (int (Suc m + j)) = Some (B ! j)"
    using assms by (subst load_nat) (simp_all add: nth_append)
  show ?thesis
    by (simp only: copy_R_def m1 a b bind.bind_lunit store_buf_nat [OF assms(4)])
qed

lemma map_Some_nth: "map (\<lambda>i. Some (A ! i)) [0..<length A] = map Some A"
  by (rule nth_equalityI) simp_all

lemma seq_fill_L:
  assumes "length P = l" "int (length (P @ A @ S)) \<le> INT_MAX" "length cells = length A"
  shows "for_loop (copy_L (P @ A @ S) (int l)) 0 (int (length A)) (Buf cells) =
      Some (Buf (map Some A))"
proof -
  have "for_loop (copy_L (P @ A @ S) (int l)) (int 0) (int (length A)) (Buf cells) =
      Some (Buf (take 0 cells @ map (\<lambda>i. Some (A ! i)) [0..<length A]))"
    using assms by (intro for_loop_fill copy_L_cell) simp_all
  then show ?thesis by (simp add: map_Some_nth)
qed

lemma seq_fill_R:
  assumes "length P = Suc m" "int (length (P @ B @ S)) \<le> INT_MAX" "length cells = length B"
  shows "for_loop (copy_R (P @ B @ S) (int m)) 0 (int (length B)) (Buf cells) =
      Some (Buf (map Some B))"
proof -
  have "for_loop (copy_R (P @ B @ S) (int m)) (int 0) (int (length B)) (Buf cells) =
      Some (Buf (take 0 cells @ map (\<lambda>i. Some (B ! i)) [0..<length B]))"
    using assms by (intro for_loop_fill copy_R_cell) simp_all
  then show ?thesis by (simp add: map_Some_nth)
qed

lemma par_fill_L:
  assumes "length P = l" "int (length (P @ A @ S)) \<le> INT_MAX" "length cells = length A"
    "is_schedule (int (length A)) sched"
  shows "omp_for (copy_L (P @ A @ S) (int l)) sched (Buf cells) = Some (Buf (map Some A))"
proof -
  have "omp_for (copy_L (P @ A @ S) (int l)) sched (Buf cells) =
      Some (Buf (map (\<lambda>i. Some (A ! i)) [0..<length A]))"
    using assms by (intro omp_for_fill_all copy_L_cell) simp_all
  then show ?thesis by (simp add: map_Some_nth)
qed

lemma par_fill_R:
  assumes "length P = Suc m" "int (length (P @ B @ S)) \<le> INT_MAX" "length cells = length B"
    "is_schedule (int (length B)) sched"
  shows "omp_for (copy_R (P @ B @ S) (int m)) sched (Buf cells) = Some (Buf (map Some B))"
proof -
  have "omp_for (copy_R (P @ B @ S) (int m)) sched (Buf cells) =
      Some (Buf (map (\<lambda>i. Some (B ! i)) [0..<length B]))"
    using assms by (intro omp_for_fill_all copy_R_cell) simp_all
  then show ?thesis by (simp add: map_Some_nth)
qed

lemma copy_L_null: "copy_L arr left i Null = None"
  by (simp add: copy_L_def store_buf_def split: Option.bind_split)

lemma copy_R_null: "copy_R arr mid j Null = None"
  by (simp add: copy_R_def store_buf_def split: Option.bind_split)

lemma copy_L_opt:
  assumes "i < length cells"
  shows "copy_L arr left (int i) (Buf cells) =
      map_option (\<lambda>v. Buf (cells[i := Some v])) (c_add left (int i) \<bind> load arr)"
  using assms by (simp add: copy_L_def store_buf_nat split: Option.bind_split)

lemma copy_R_opt:
  assumes "j < length cells"
  shows "copy_R arr mid (int j) (Buf cells) =
      map_option (\<lambda>v. Buf (cells[j := Some v]))
        (c_add mid 1 \<bind> (\<lambda>m. c_add m (int j) \<bind> load arr))"
  using assms by (simp add: copy_R_def store_buf_nat split: Option.bind_split)

section \<open>The three loops of the merge\<close>

lemma merge_back_tail: "merge_back arr L R n1 n2 left = merge_tail L R n1 n2 (arr, 0, 0, left)"
  by (simp add: merge_back_def merge_tail_def)

lemma drain_done: "n \<le> i \<Longrightarrow> drain B n (arr, i, k) = Some (arr, i, k)"
  by (subst drain.simps) simp

lemma drain_spec:
  assumes "i \<le> length xs" "k + (length xs - i) \<le> length arr"
    "int (length xs) \<le> INT_MAX" "int (length arr) \<le> INT_MAX"
  shows "drain (Buf (map Some xs)) (int (length xs)) (arr, int i, int k) =
      Some (take k arr @ drop i xs @ drop (k + (length xs - i)) arr,
            int (length xs), int (k + (length xs - i)))"
  using assms(1,2,4)
proof (induction "length xs - i" arbitrary: i k arr)
  case 0
  then show ?case by (simp add: drain_done)
next
  case (Suc d)
  then have lt: "i < length xs" "k < length arr" by simp_all
  have i1: "c_add (int i) 1 = Some (int (Suc i))"
    using lt(1) assms(3) by (rule c_add_1)
  have k1: "c_add (int k) 1 = Some (int (Suc k))"
    using lt(2) Suc.prems(3) by (rule c_add_1)
  have ih: "drain (Buf (map Some xs)) (int (length xs)) (arr[k := xs ! i], int (Suc i), int (Suc k)) =
      Some (take (Suc k) (arr[k := xs ! i]) @ drop (Suc i) xs @
            drop (Suc k + (length xs - Suc i)) (arr[k := xs ! i]),
            int (length xs), int (Suc k + (length xs - Suc i)))"
    using Suc lt by (intro Suc.hyps(1)) simp_all
  have tk: "take (Suc k) (arr[k := xs ! i]) = take k arr @ [xs ! i]"
    using lt by (simp add: take_Suc_conv_app_nth)
  have dr: "drop i xs = xs ! i # drop (Suc i) xs"
    using lt by (simp add: Cons_nth_drop_Suc)
  have eq: "Suc k + (length xs - Suc i) = k + (length xs - i)"
    "Suc (k + length xs - Suc i) = k + length xs - i" using lt by simp_all
  show ?case
    using lt
    apply (subst drain.simps)
    apply (simp only: lt load_buf_nat store_nat i1 k1 of_nat_less_iff if_True bind.bind_lunit)
    apply (simp only: ih tk eq)
    apply (subst dr)
    apply (simp add: lt)
    done
qed

lemma interleave_done: "\<not> (i < n1 \<and> j < n2) \<Longrightarrow> interleave L R n1 n2 (arr, i, j, k) = Some (arr, i, j, k)"
  by (subst interleave.simps) auto

lemma merge_lists_Nil2 [simp]: "merge_lists xs [] = xs"
  by (cases xs) simp_all

lemma merge_tail_spec:
  assumes "i \<le> length xs" "j \<le> length ys"
    "k + (length xs - i) + (length ys - j) \<le> length arr"
    "int (length arr) \<le> INT_MAX"
    "int (length xs) \<le> INT_MAX" "int (length ys) \<le> INT_MAX"
  shows "merge_tail (Buf (map Some xs)) (Buf (map Some ys)) (int (length xs)) (int (length ys))
           (arr, int i, int j, int k) =
      Some (take k arr @ merge_lists (drop i xs) (drop j ys) @
            drop (k + (length xs - i) + (length ys - j)) arr)"
  using assms(1-4)
proof (induction "(length xs - i) + (length ys - j)" arbitrary: i j k arr)
  case 0
  then have ij: "i = length xs" "j = length ys" by simp_all
  show ?case
    unfolding merge_tail_def by (simp add: ij interleave_done drain_done)
next
  case (Suc d)
  show ?case
  proof (cases "i < length xs \<and> j < length ys")
    case False
    then have stop: "interleave (Buf (map Some xs)) (Buf (map Some ys)) (int (length xs)) (int (length ys))
        (arr, int i, int j, int k) = Some (arr, int i, int j, int k)"
      by (intro interleave_done) simp
    show ?thesis
    proof (cases "i < length xs")
      case True
      with False have j: "j = length ys" using Suc.prems by simp
      have d1: "drain (Buf (map Some xs)) (int (length xs)) (arr, int i, int k) =
          Some (take k arr @ drop i xs @ drop (k + (length xs - i)) arr,
            int (length xs), int (k + (length xs - i)))"
        using Suc.prems assms(5) by (intro drain_spec) simp_all
      show ?thesis
        unfolding merge_tail_def stop by (simp add: d1 drain_done j)
    next
      case False
      then have i: "i = length xs" using Suc.prems by simp
      have d2: "drain (Buf (map Some ys)) (int (length ys)) (arr, int j, int k) =
          Some (take k arr @ drop j ys @ drop (k + (length ys - j)) arr,
            int (length ys), int (k + (length ys - j)))"
        using Suc.prems assms(6) by (intro drain_spec) simp_all
      show ?thesis
        unfolding merge_tail_def stop by (simp add: d2 drain_done i)
    qed
  next
    case True
    then have lt: "i < length xs" "j < length ys" "k < length arr"
      using Suc.prems(3) by arith+
    have i1: "c_add (int i) 1 = Some (int (Suc i))"
      using lt(1) assms(5) by (rule c_add_1)
    have j1: "c_add (int j) 1 = Some (int (Suc j))"
      using lt(2) assms(6) by (rule c_add_1)
    have k1: "c_add (int k) 1 = Some (int (Suc k))"
      using lt(3) Suc.prems(4) by (rule c_add_1)
    have dx: "drop i xs = xs ! i # drop (Suc i) xs"
      using lt by (simp add: Cons_nth_drop_Suc)
    have dy: "drop j ys = ys ! j # drop (Suc j) ys"
      using lt by (simp add: Cons_nth_drop_Suc)
    let ?L = "Buf (map Some xs)" and ?R = "Buf (map Some ys)"
    let ?n1 = "int (length xs)" and ?n2 = "int (length ys)"
    show ?thesis
    proof (cases "sint (xs ! i) \<le> sint (ys ! j)")
      case le: True
      have step: "merge_tail ?L ?R ?n1 ?n2 (arr, int i, int j, int k) =
          merge_tail ?L ?R ?n1 ?n2 (arr[k := xs ! i], int (Suc i), int j, int (Suc k))"
        unfolding merge_tail_def
        apply (subst interleave.simps)
        apply (simp only: lt le load_buf_nat store_nat i1 k1 of_nat_less_iff if_True
            bind.bind_lunit simp_thms split)
        done
      have ih: "merge_tail ?L ?R ?n1 ?n2 (arr[k := xs ! i], int (Suc i), int j, int (Suc k)) =
          Some (take (Suc k) (arr[k := xs ! i]) @ merge_lists (drop (Suc i) xs) (drop j ys) @
            drop (Suc k + (length xs - Suc i) + (length ys - j)) (arr[k := xs ! i]))"
        using Suc lt by (intro Suc.hyps(1)) simp_all
      have tk: "take (Suc k) (arr[k := xs ! i]) = take k arr @ [xs ! i]"
        using lt by (simp add: take_Suc_conv_app_nth)
      have eq: "Suc k + (length xs - Suc i) + (length ys - j) = k + (length xs - i) + (length ys - j)"
        using lt by simp
      have dr: "drop (k + (length xs - i) + (length ys - j)) (arr[k := xs ! i]) =
          drop (k + (length xs - i) + (length ys - j)) arr"
        using lt by simp
      have ml: "merge_lists (drop i xs) (drop j ys) = xs ! i # merge_lists (drop (Suc i) xs) (drop j ys)"
        by (simp only: dx dy merge_lists.simps le if_True)
      show ?thesis
        unfolding step ih tk eq dr ml by simp
    next
      case gt: False
      have step: "merge_tail ?L ?R ?n1 ?n2 (arr, int i, int j, int k) =
          merge_tail ?L ?R ?n1 ?n2 (arr[k := ys ! j], int i, int (Suc j), int (Suc k))"
        unfolding merge_tail_def
        apply (subst interleave.simps)
        apply (simp only: lt gt load_buf_nat store_nat j1 k1 of_nat_less_iff if_True if_False
            bind.bind_lunit simp_thms split)
        done
      have ih: "merge_tail ?L ?R ?n1 ?n2 (arr[k := ys ! j], int i, int (Suc j), int (Suc k)) =
          Some (take (Suc k) (arr[k := ys ! j]) @ merge_lists (drop i xs) (drop (Suc j) ys) @
            drop (Suc k + (length xs - i) + (length ys - Suc j)) (arr[k := ys ! j]))"
        using Suc lt by (intro Suc.hyps(1)) simp_all
      have tk: "take (Suc k) (arr[k := ys ! j]) = take k arr @ [ys ! j]"
        using lt by (simp add: take_Suc_conv_app_nth)
      have eq: "Suc k + (length xs - i) + (length ys - Suc j) = k + (length xs - i) + (length ys - j)"
        using lt by simp
      have dr: "drop (k + (length xs - i) + (length ys - j)) (arr[k := ys ! j]) =
          drop (k + (length xs - i) + (length ys - j)) arr"
        using lt by simp
      have ml: "merge_lists (drop i xs) (drop j ys) = ys ! j # merge_lists (drop i xs) (drop (Suc j) ys)"
        by (simp only: dx dy merge_lists.simps gt if_False)
      show ?thesis
        unfolding step ih tk eq dr ml by simp
    qed
  qed
qed

lemma merge_back_parts:
  assumes "int (length (P @ A @ B @ S)) \<le> INT_MAX"
  shows "merge_back (P @ A @ B @ S) (Buf (map Some A)) (Buf (map Some B))
           (int (length A)) (int (length B)) (int (length P)) =
         Some (P @ merge_lists A B @ S)"
proof -
  have "merge_tail (Buf (map Some A)) (Buf (map Some B)) (int (length A)) (int (length B))
          (P @ A @ B @ S, int 0, int 0, int (length P)) =
        Some (take (length P) (P @ A @ B @ S) @ merge_lists (drop 0 A) (drop 0 B) @
              drop (length P + (length A - 0) + (length B - 0)) (P @ A @ B @ S))"
    using assms by (intro merge_tail_spec) simp_all
  then show ?thesis by (simp add: merge_back_tail)
qed

section \<open>The merges on a split array\<close>

lemma merge_sequential_parts:
  assumes "A \<noteq> []" "B \<noteq> []" "int (length (P @ A @ B @ S)) \<le> INT_MAX"
    "left = int (length P)" "mid = int (length P) + int (length A) - 1"
    "right = int (length P) + int (length A) + int (length B) - 1"
  shows "merge_sequential (P @ A @ B @ S) left mid right = Some (P @ merge_lists A B @ S)"
proof -
  have pos: "0 < length A" "0 < length B" using assms by simp_all
  have d: "c_sub mid left = Some (int (length A) - 1)"
    using assms pos by (simp add: c_sub_def c_int_def INT_MIN_def)
  have n1: "c_add (int (length A) - 1) 1 = Some (int (length A))"
    using assms by (simp add: c_add_def c_int_def INT_MIN_def)
  have n2: "c_sub right mid = Some (int (length B))"
    using assms by (simp add: c_sub_def c_int_def INT_MIN_def)
  have v1: "vla (int (length A)) = Some (Buf (replicate (length A) None))"
    using pos by (simp add: vla_def)
  have v2: "vla (int (length B)) = Some (Buf (replicate (length B) None))"
    using pos by (simp add: vla_def)
  have fL: "for_loop (copy_L (P @ A @ B @ S) (int (length P))) 0 (int (length A))
      (Buf (replicate (length A) None)) = Some (Buf (map Some A))"
    using assms(3) by (intro seq_fill_L) simp_all
  define m where "m = length P + length A - 1"
  have m: "mid = int m" "length (P @ A) = Suc m"
    using assms(5) pos unfolding m_def by (linarith, simp)
  have fR: "for_loop (copy_R (P @ A @ B @ S) mid) 0 (int (length B))
      (Buf (replicate (length B) None)) = Some (Buf (map Some B))"
    unfolding m(1) using seq_fill_R [of "P @ A" m B S "replicate (length B) None"] m(2) assms(3)
    by simp
  show ?thesis
    unfolding merge_sequential_def d
    using merge_back_parts [OF assms(3)]
    by (simp add: n1 n2 v1 v2 fL fR assms(4))
qed

lemma merge_parallel_parts:
  assumes "A \<noteq> []" "B \<noteq> []" "int (length (P @ A @ B @ S)) \<le> INT_MAX"
    "left = int (length P)" "mid = int (length P) + int (length A) - 1"
    "right = int (length P) + int (length A) + int (length B) - 1"
    "regular_run run left mid right"
  shows "merge_parallel run (P @ A @ B @ S) left mid right = Some (P @ merge_lists A B @ S)"
proof -
  have pos: "0 < length A" "0 < length B" using assms by simp_all
  have d: "c_sub mid left = Some (int (length A) - 1)"
    using assms pos by (simp add: c_sub_def c_int_def INT_MIN_def)
  have n1: "c_add (int (length A) - 1) 1 = Some (int (length A))"
    using assms by (simp add: c_add_def c_int_def INT_MIN_def)
  have n2: "c_sub right mid = Some (int (length B))"
    using assms by (simp add: c_sub_def c_int_def INT_MIN_def)
  have run: "L_alloc run" "R_alloc run" "is_schedule (int (length A)) (L_sched run)"
    "is_schedule (int (length B)) (R_sched run)"
    using assms(7) unfolding regular_run_def assms(4,5,6) by simp_all
  have v1: "calloc (L_alloc run) (int (length A)) = Buf (replicate (length A) (Some 0))"
    using run by (simp add: calloc_def)
  have v2: "calloc (R_alloc run) (int (length B)) = Buf (replicate (length B) (Some 0))"
    using run by (simp add: calloc_def)
  have fL: "omp_for (copy_L (P @ A @ B @ S) (int (length P))) (L_sched run)
      (Buf (replicate (length A) (Some 0))) = Some (Buf (map Some A))"
    using assms(3) run by (intro par_fill_L) simp_all
  define m where "m = length P + length A - 1"
  have m: "mid = int m" "length (P @ A) = Suc m"
    using assms(5) pos unfolding m_def by (linarith, simp)
  have fR: "omp_for (copy_R (P @ A @ B @ S) mid) (R_sched run)
      (Buf (replicate (length B) (Some 0))) = Some (Buf (map Some B))"
    unfolding m(1)
    using par_fill_R [of "P @ A" m B S "replicate (length B) (Some 0)" "R_sched run"]
      m(2) assms(3) run
    by simp
  show ?thesis
    unfolding merge_parallel_def d
    using merge_back_parts [OF assms(3)]
    by (simp add: n1 n2 v1 v2 fL fR assms(4))
qed

lemma merge_parallel_null:
  assumes "\<not> L_alloc run \<or> \<not> R_alloc run"
    and "left \<le> mid" "mid < right"
    and "is_schedule (mid - left + 1) (L_sched run)" "is_schedule (right - mid) (R_sched run)"
  shows "merge_parallel run arr left mid right = None"
proof -
  obtain i sL where sL: "L_sched run = i # sL"
    using is_schedule_nonempty [OF _ assms(4)] assms(2) by (cases "L_sched run") auto
  obtain j sR where sR: "R_sched run = j # sR"
    using is_schedule_nonempty [OF _ assms(5)] assms(3) by (cases "R_sched run") auto
  show ?thesis
  proof (cases "L_alloc run")
    case False
    then show ?thesis
      by (simp add: merge_parallel_def calloc_def sL copy_L_null split: Option.bind_split)
  next
    case True
    with assms(1) have "\<not> R_alloc run" by simp
    then show ?thesis
      by (simp add: merge_parallel_def calloc_def sR copy_R_null split: Option.bind_split)
  qed
qed

lemma merge_parallel_sequential_same:
  assumes "left \<le> mid" "mid < right" "regular_run run left mid right"
  shows "merge_parallel run arr left mid right = merge_sequential arr left mid right"
proof (cases "c_sub mid left \<bind> (\<lambda>d. c_add d 1)")
  case None
  then show ?thesis
    by (auto simp: merge_parallel_def merge_sequential_def split: Option.bind_splits)
next
  case n1: (Some n1)
  then have n1v: "n1 = mid - left + 1" "n1 \<le> INT_MAX"
    by (auto simp: c_sub_def c_add_def split: Option.bind_splits dest!: c_int_Some)
  show ?thesis
  proof (cases "c_sub right mid")
    case None
    then show ?thesis
      by (auto simp: merge_parallel_def merge_sequential_def split: Option.bind_splits)
  next
    case n2: (Some n2)
    then have n2v: "n2 = right - mid" "n2 \<le> INT_MAX"
      by (auto simp: c_sub_def dest!: c_int_Some)
    have pos: "0 < n1" "0 < n2" using n1v n2v assms(1,2) by simp_all
    have run: "L_alloc run" "R_alloc run" "is_schedule n1 (L_sched run)"
      "is_schedule n2 (R_sched run)"
      using assms(3) unfolding regular_run_def n1v n2v by simp_all
    have fL: "omp_for (copy_L arr left) (L_sched run) (Buf (replicate (nat n1) (Some 0))) =
        for_loop (copy_L arr left) 0 (int (nat n1)) (Buf (replicate (nat n1) None))"
      using run(3) n1v(2) pos(1)
      by (intro fill_opt_same [where g = "\<lambda>i. c_add left (int i) \<bind> load arr"] copy_L_opt)
         simp_all
    have fR: "omp_for (copy_R arr mid) (R_sched run) (Buf (replicate (nat n2) (Some 0))) =
        for_loop (copy_R arr mid) 0 (int (nat n2)) (Buf (replicate (nat n2) None))"
      using run(4) n2v(2) pos(2)
      by (intro fill_opt_same
            [where g = "\<lambda>j. c_add mid 1 \<bind> (\<lambda>m. c_add m (int j) \<bind> load arr)"] copy_R_opt)
         simp_all
    have nn: "int (nat n1) = n1" "int (nat n2) = n2" using pos by simp_all
    obtain d where d: "c_sub mid left = Some d" "c_add d 1 = Some n1"
      using n1 by (auto split: Option.bind_splits)
    show ?thesis
      using pos run(1,2) fL fR
      by (simp add: merge_parallel_def merge_sequential_def d n2 calloc_def vla_def nn)
  qed
qed

section \<open>Merging sorted lists\<close>

lemma mset_merge_lists: "mset (merge_lists xs ys) = mset xs + mset ys"
  by (induction xs ys rule: merge_lists.induct) simp_all

lemma set_merge_lists: "set (merge_lists xs ys) = set xs \<union> set ys"
  by (induction xs ys rule: merge_lists.induct) auto

lemma sorted_merge_lists:
  "sorted (map sint xs) \<Longrightarrow> sorted (map sint ys) \<Longrightarrow> sorted (map sint (merge_lists xs ys))"
  by (induction xs ys rule: merge_lists.induct) (auto simp: set_merge_lists)

lemma inj_sint: "inj (sint :: int32 \<Rightarrow> int)"
  by (rule injI) (simp add: signed_word_eqI)

lemma sorted_sint_unique:
  fixes zs ws :: "int32 list"
  assumes "sorted (map sint zs)" "mset zs = mset ws"
  shows "zs = sort_key sint ws"
proof -
  have "sort (map sint ws) = map sint zs"
    using assms by (intro properties_for_sort) simp_all
  moreover have "sort (map sint ws) = map sint (sort_key sint ws)"
    by (intro properties_for_sort) simp_all
  ultimately have "map sint zs = map sint (sort_key sint ws)" by simp
  then show ?thesis using inj_sint by (rule map_injective)
qed

lemma merge_lists_sort:
  "merge_lists (sort_key sint xs) (sort_key sint ys) = sort_key sint (xs @ ys)"
  by (rule sorted_sint_unique) (simp_all add: sorted_merge_lists mset_merge_lists)

lemma sort_key_short: "length A \<le> 1 \<Longrightarrow> sort_key f A = A"
  by (cases A) (simp_all add: Suc_le_eq)

section \<open>The sort on a split array\<close>

lemma merge_sort_recursive_unfold:
  assumes "left < right"
    and "c_sub right left = Some sz"
    and "c_div sz 2 = Some half"
    and "c_add left half = Some mid"
    and "merge_sort_recursive env arr left mid = Some arr1"
    and "c_add mid 1 = Some mid1"
    and "merge_sort_recursive env arr1 mid1 right = Some arr2"
    and "merge_sequential arr2 left mid right = Some res"
    and "merge_parallel (env left mid right) arr2 left mid right = Some res"
  shows "merge_sort_recursive env arr left right = Some res"
  by (subst merge_sort_recursive.simps)
     (simp only: assms if_True bind.bind_lunit if_cancel)

lemma merge_sort_recursive_parts:
  assumes env: "regular_env env"
    and "int (length (P @ A @ S)) \<le> INT_MAX"
  shows "merge_sort_recursive env (P @ A @ S) (int (length P))
           (int (length P) + int (length A) - 1) = Some (P @ sort_key sint A @ S)"
  using assms(2)
proof (induction "length A" arbitrary: P A S rule: less_induct)
  case less
  show ?case
  proof (cases "length A \<le> 1")
    case True
    then have "\<not> int (length P) < int (length P) + int (length A) - 1" by simp
    then show ?thesis
      using True by (subst merge_sort_recursive.simps) (simp add: sort_key_short)
  next
    case False
    define h where "h = (length A - 1) div 2"
    define A1 where "A1 = take (Suc h) A"
    define A2 where "A2 = drop (Suc h) A"
    have hlt: "Suc h < length A" using False unfolding h_def by linarith
    have A: "A = A1 @ A2" by (simp add: A1_def A2_def)
    have len1: "length A1 = Suc h" using hlt by (simp add: A1_def)
    have len2: "length A2 = length A - Suc h" by (simp add: A2_def)
    have laA: "length A = Suc h + length A2" using hlt len2 by simp
    have ne: "sort_key sint A1 \<noteq> []" "sort_key sint A2 \<noteq> []"
      using len1 len2 hlt by (auto simp flip: length_0_conv)
    define left where "left = int (length P)"
    define right where "right = int (length P) + int (length A) - 1"
    define mid where "mid = int (length P) + int h"
    have bound: "int (length P) + int (length A) + int (length S) \<le> INT_MAX"
      using less.prems by simp
    have lr: "left < right" using False by (simp add: left_def right_def)
    have f1: "c_sub right left = Some (int (length A - 1))"
      using False bound by (simp add: c_sub_def c_int_def INT_MIN_def left_def right_def of_nat_diff)
    have f2: "c_div (int (length A - 1)) 2 = Some (int h)"
      using bound c_div_2 [of "int (length A - 1)"] by (simp add: h_def zdiv_int)
    have f3: "c_add left (int h) = Some mid"
      using bound hlt by (simp add: c_add_def c_int_def INT_MIN_def left_def mid_def)
    have f4: "merge_sort_recursive env (P @ A @ S) left mid = Some (P @ sort_key sint A1 @ A2 @ S)"
      using less.hyps [of A1 P "A2 @ S"] less.prems hlt
      by (simp add: A len1 left_def mid_def)
    have f5: "c_add mid 1 = Some (int (length (P @ sort_key sint A1)))"
      using bound hlt by (simp add: c_add_def c_int_def INT_MIN_def mid_def len1)
    have f6: "merge_sort_recursive env (P @ sort_key sint A1 @ A2 @ S)
        (int (length (P @ sort_key sint A1))) right =
        Some (P @ sort_key sint A1 @ sort_key sint A2 @ S)"
      using less.hyps [of A2 "P @ sort_key sint A1" S] less.prems hlt
      by (simp add: laA len1 right_def)
    have bound': "int (length (P @ sort_key sint A1 @ sort_key sint A2 @ S)) \<le> INT_MAX"
      using less.prems by (simp add: A)
    have tri: "left = int (length P)"
      "mid = int (length P) + int (length (sort_key sint A1)) - 1"
      "right = int (length P) + int (length (sort_key sint A1)) + int (length (sort_key sint A2)) - 1"
      using hlt by (simp_all add: left_def mid_def right_def len1 len2)
    have f7: "merge_sequential (P @ sort_key sint A1 @ sort_key sint A2 @ S) left mid right =
        Some (P @ sort_key sint A @ S)"
      using merge_sequential_parts [OF ne bound' tri]
      by (simp add: merge_lists_sort A)
    have "regular_run (env left mid right) left mid right"
      using env by (simp add: regular_env_def)
    then have f8: "merge_parallel (env left mid right)
        (P @ sort_key sint A1 @ sort_key sint A2 @ S) left mid right =
        Some (P @ sort_key sint A @ S)"
      using merge_parallel_parts [OF ne bound' tri]
      by (simp add: merge_lists_sort A)
    show ?thesis
      using merge_sort_recursive_unfold [OF lr f1 f2 f3 f4 f5 f6 f7 f8]
      by (simp only: left_def right_def)
  qed
qed

lemma merge_sort_recursive_empty_range:
  "right \<le> left \<Longrightarrow> merge_sort_recursive env arr left right = Some arr"
  by (subst merge_sort_recursive.simps) simp

lemma sort_driver_step:
  assumes "left < right" "0 \<le> left" "right \<le> INT_MAX"
  shows "merge_sort_recursive env arr left right =
     (let size = right - left; mid = left + size div 2 in
      do {
        arr1 \<leftarrow> merge_sort_recursive env arr left mid;
        arr2 \<leftarrow> merge_sort_recursive env arr1 (mid + 1) right;
        if size < 2000 then merge_sequential arr2 left mid right
        else merge_parallel (env left mid right) arr2 left mid right
      })"
proof -
  define sz where "sz = right - left"
  define mid where "mid = left + sz div 2"
  have sz: "0 < sz" "sz \<le> INT_MAX" using assms by (simp_all add: sz_def)
  have mid: "left \<le> mid" "mid < right"
    using sz unfolding mid_def sz_def by presburger+
  have f1: "c_sub right left = Some sz"
    using sz by (simp add: c_sub_def c_int_def sz_def INT_MIN_def)
  have f2: "c_div sz 2 = Some (sz div 2)"
    using sz by (intro c_div_2) simp_all
  have f3: "c_add left (sz div 2) = Some mid"
    using mid assms by (simp add: c_add_def c_int_def mid_def INT_MIN_def)
  have f4: "c_add mid 1 = Some (mid + 1)"
    using mid assms by (simp add: c_add_def c_int_def INT_MIN_def)
  have "merge_sort_recursive env arr left right =
      do {
        arr1 \<leftarrow> merge_sort_recursive env arr left mid;
        arr2 \<leftarrow> merge_sort_recursive env arr1 (mid + 1) right;
        if sz < 2000 then merge_sequential arr2 left mid right
        else merge_parallel (env left mid right) arr2 left mid right
      }"
  proof (cases "sz < 2000")
    case True
    show ?thesis
      by (subst merge_sort_recursive.simps)
         (simp only: assms(1) f1 f2 f3 f4 True if_True bind.bind_lunit)
  next
    case False
    show ?thesis
      by (subst merge_sort_recursive.simps)
         (simp only: assms(1) f1 f2 f3 f4 False if_True if_False bind.bind_lunit)
  qed
  then show ?thesis
    by (simp only: Let_def sz_def [symmetric] mid_def [symmetric])
qed

text \<open>
  The two recursive sorts of the parallel branch are OpenMP tasks. They work on disjoint
  parts of the array, and running them in either order gives the same array.
\<close>

lemma tasks_commute_parts:
  assumes "regular_env env" "int (length (P @ A @ B @ S)) \<le> INT_MAX"
    and "left = int (length P)" "mid = int (length P) + int (length A) - 1"
    and "right = int (length P) + int (length A) + int (length B) - 1"
  shows "do { arr1 \<leftarrow> merge_sort_recursive env (P @ A @ B @ S) left mid;
              merge_sort_recursive env arr1 (mid + 1) right } =
         Some (P @ sort_key sint A @ sort_key sint B @ S)"
    and "do { arr1 \<leftarrow> merge_sort_recursive env (P @ A @ B @ S) (mid + 1) right;
              merge_sort_recursive env arr1 left mid } =
         Some (P @ sort_key sint A @ sort_key sint B @ S)"
proof -
  have a1: "merge_sort_recursive env (P @ A @ B @ S) left mid = Some (P @ sort_key sint A @ B @ S)"
    using merge_sort_recursive_parts [OF assms(1), of P A "B @ S"] assms(2-4) by simp
  have i1: "mid + 1 = int (length P) + int (length A)"
    using assms(4) by simp
  have a2: "merge_sort_recursive env (P @ sort_key sint A @ B @ S) (mid + 1) right =
      Some (P @ sort_key sint A @ sort_key sint B @ S)"
    unfolding i1 assms(5)
    using merge_sort_recursive_parts [OF assms(1), of "P @ sort_key sint A" B S] assms(2)
    by simp
  have b1: "merge_sort_recursive env (P @ A @ B @ S) (mid + 1) right =
      Some (P @ A @ sort_key sint B @ S)"
    unfolding i1 assms(5)
    using merge_sort_recursive_parts [OF assms(1), of "P @ A" B S] assms(2)
    by simp
  have b2: "merge_sort_recursive env (P @ A @ sort_key sint B @ S) left mid =
      Some (P @ sort_key sint A @ sort_key sint B @ S)"
    using merge_sort_recursive_parts [OF assms(1), of P A "sort_key sint B @ S"] assms(2-4)
    by simp
  show "do { arr1 \<leftarrow> merge_sort_recursive env (P @ A @ B @ S) left mid;
              merge_sort_recursive env arr1 (mid + 1) right } =
         Some (P @ sort_key sint A @ sort_key sint B @ S)"
    by (simp add: a1 a2)
  show "do { arr1 \<leftarrow> merge_sort_recursive env (P @ A @ B @ S) (mid + 1) right;
              merge_sort_recursive env arr1 left mid } =
         Some (P @ sort_key sint A @ sort_key sint B @ S)"
    by (simp add: b1 b2)
qed

section \<open>Index ranges\<close>

lemma subarray_append:
  assumes "0 \<le> left" "left \<le> mid + 1" "mid \<le> right"
  shows "subarray arr left right = subarray arr left mid @ subarray arr (mid + 1) right"
proof -
  have n: "nat (right - left + 1) = nat (mid - left + 1) + nat (right - (mid + 1) + 1)"
    using assms by linarith
  have d: "nat (mid + 1) = nat (mid - left + 1) + nat left"
    using assms by linarith
  show ?thesis
    unfolding subarray_def n d by (simp add: take_add)
qed

lemma range_split:
  assumes "0 \<le> left" "left \<le> right + 1" "right < int (length arr)"
  shows "arr = take (nat left) arr @ subarray arr left right @ drop (nat (right + 1)) arr"
    and "int (length (take (nat left) arr)) = left"
    and "int (length (subarray arr left right)) = right - left + 1"
proof -
  have d: "nat (right + 1) = nat (right - left + 1) + nat left"
    using assms by linarith
  show "arr = take (nat left) arr @ subarray arr left right @ drop (nat (right + 1)) arr"
    unfolding subarray_def d by (simp flip: drop_drop)
  show "int (length (take (nat left) arr)) = left"
    using assms by simp
  show "int (length (subarray arr left right)) = right - left + 1"
    using assms by (simp add: subarray_def)
qed

lemma subarray_parts:
  assumes "int (length P) = left" "int (length X) = right - left + 1"
  shows "subarray (P @ X @ S) left right = X"
proof -
  have "nat left = length P" "nat (right - left + 1) = length X"
    using assms by linarith+
  then show ?thesis by (simp add: subarray_def)
qed

lemma load_parts_outside:
  assumes "int (length P) = left" "int (length X) = right - left + 1" "length Y = length X"
    "idx < left \<or> right < idx"
  shows "load (P @ Y @ S) idx = load (P @ X @ S) idx"
proof (cases "idx < left")
  case True
  then show ?thesis
    using assms(1) by (auto simp: load_def nth_append)
next
  case False
  with assms(4) have r: "right < idx" by simp
  then have "nat idx - length P - length X = nat idx - length P - length Y"
    using assms by simp
  moreover have "\<not> nat idx < length P" "\<not> nat idx - length P < length X"
    using r assms by linarith+
  ultimately show ?thesis
    using assms(3) by (simp add: load_def nth_append)
qed

text \<open>
  What a merge and the sort make of the array, for indices within it.
\<close>

lemma merge_in_range:
  assumes "0 \<le> left" "left \<le> mid" "mid < right" "right < int (length arr)"
    "int (length arr) \<le> INT_MAX"
  defines "res \<equiv> take (nat left) arr @
      merge_lists (subarray arr left mid) (subarray arr (mid + 1) right) @ drop (nat (right + 1)) arr"
  shows "merge_sequential arr left mid right = Some res"
    and "regular_run run left mid right \<Longrightarrow> merge_parallel run arr left mid right = Some res"
    and "subarray res left right = merge_lists (subarray arr left mid) (subarray arr (mid + 1) right)"
    and "idx < left \<or> right < idx \<Longrightarrow> load res idx = load arr idx"
    and "length res = length arr"
proof -
  let ?P = "take (nat left) arr" and ?A = "subarray arr left mid"
  let ?B = "subarray arr (mid + 1) right" and ?S = "drop (nat (right + 1)) arr"
  have sp: "arr = ?P @ subarray arr left right @ ?S" "int (length ?P) = left"
    "int (length (subarray arr left right)) = right - left + 1"
    using range_split [of left right arr] assms(1-4) by simp_all
  have ab: "subarray arr left right = ?A @ ?B"
    using assms(1-3) by (intro subarray_append) simp_all
  have lenA: "int (length ?A) = mid - left + 1"
    using range_split(3) [of left mid arr] assms(1-4) by simp
  have lenB: "int (length ?B) = right - mid"
    using range_split(3) [of "mid + 1" right arr] assms(1-4) by simp
  have ne: "?A \<noteq> []" "?B \<noteq> []"
    using lenA lenB assms(2,3) by auto
  have arr: "arr = ?P @ ?A @ ?B @ ?S"
    using sp(1) ab by simp
  have bound: "int (length (?P @ ?A @ ?B @ ?S)) \<le> INT_MAX"
    using assms(5) arr by simp
  have tri: "left = int (length ?P)" "mid = int (length ?P) + int (length ?A) - 1"
    "right = int (length ?P) + int (length ?A) + int (length ?B) - 1"
    using sp(2) lenA lenB by simp_all
  show "merge_sequential arr left mid right = Some res"
    using merge_sequential_parts [OF ne bound tri] arr unfolding res_def by simp
  show "merge_parallel run arr left mid right = Some res"
    if "regular_run run left mid right"
    using merge_parallel_parts [OF ne bound tri that] arr unfolding res_def by simp
  have lenM: "int (length (merge_lists ?A ?B)) = right - left + 1"
    using lenA lenB size_mset [of "merge_lists ?A ?B"] by (simp add: mset_merge_lists)
  show "subarray res left right = merge_lists ?A ?B"
    unfolding res_def using sp(2) lenM by (rule subarray_parts)
  show "load res idx = load arr idx" if "idx < left \<or> right < idx"
  proof -
    have "load (?P @ merge_lists ?A ?B @ ?S) idx = load (?P @ subarray arr left right @ ?S) idx"
      using sp(2,3) _ that by (rule load_parts_outside) (use lenM sp(3) in simp)
    then show ?thesis unfolding res_def using sp(1) by simp
  qed
  have "length res = length (?P @ subarray arr left right @ ?S)"
    unfolding res_def using lenM sp(3) by simp
  then show "length res = length arr" using sp(1) by simp
qed

lemma sort_in_range:
  assumes "regular_env env" "0 \<le> left" "left \<le> right + 1" "right < int (length arr)"
    "int (length arr) \<le> INT_MAX"
  defines "res \<equiv> take (nat left) arr @
      sort_key sint (subarray arr left right) @ drop (nat (right + 1)) arr"
  shows "merge_sort_recursive env arr left right = Some res"
    and "subarray res left right = sort_key sint (subarray arr left right)"
    and "idx < left \<or> right < idx \<Longrightarrow> load res idx = load arr idx"
    and "length res = length arr"
    and "mset res = mset arr"
proof -
  let ?P = "take (nat left) arr" and ?A = "subarray arr left right"
  let ?S = "drop (nat (right + 1)) arr"
  have sp: "arr = ?P @ ?A @ ?S" "int (length ?P) = left" "int (length ?A) = right - left + 1"
    using range_split [of left right arr] assms(2-4) by simp_all
  have bound: "int (length (?P @ ?A @ ?S)) \<le> INT_MAX"
    using assms(5) sp(1) by simp
  have "merge_sort_recursive env (?P @ ?A @ ?S) (int (length ?P))
      (int (length ?P) + int (length ?A) - 1) = Some res"
    unfolding res_def using assms(1) bound by (rule merge_sort_recursive_parts)
  then show "merge_sort_recursive env arr left right = Some res"
    using sp by simp
  have lenX: "int (length (sort_key sint ?A)) = right - left + 1"
    using sp(3) by simp
  show "subarray res left right = sort_key sint ?A"
    unfolding res_def using sp(2) lenX by (rule subarray_parts)
  show "load res idx = load arr idx" if "idx < left \<or> right < idx"
  proof -
    have "load (?P @ sort_key sint ?A @ ?S) idx = load (?P @ ?A @ ?S) idx"
      using sp(2,3) _ that by (rule load_parts_outside) simp
    then show ?thesis unfolding res_def using sp(1) by simp
  qed
  have "length res = length (?P @ ?A @ ?S)"
    unfolding res_def by simp
  then show "length res = length arr" using sp(1) by simp
  have "mset res = mset (?P @ ?A @ ?S)"
    unfolding res_def by simp
  then show "mset res = mset arr" using sp(1) by simp
qed

lemma tasks_commute:
  assumes "regular_env env" "0 \<le> left" "left \<le> mid" "mid < right" "right < int (length arr)"
    and "int (length arr) \<le> INT_MAX"
  shows "do { arr1 \<leftarrow> merge_sort_recursive env arr left mid;
              merge_sort_recursive env arr1 (mid + 1) right } =
         do { arr1 \<leftarrow> merge_sort_recursive env arr (mid + 1) right;
              merge_sort_recursive env arr1 left mid }"
proof -
  let ?P = "take (nat left) arr" and ?A = "subarray arr left mid"
  let ?B = "subarray arr (mid + 1) right" and ?S = "drop (nat (right + 1)) arr"
  have sp: "arr = ?P @ subarray arr left right @ ?S" "int (length ?P) = left"
    using range_split [of left right arr] assms(2-5) by simp_all
  have ab: "subarray arr left right = ?A @ ?B"
    using assms(2-4) by (intro subarray_append) simp_all
  have lenA: "int (length ?A) = mid - left + 1"
    using range_split(3) [of left mid arr] assms(2-5) by simp
  have lenB: "int (length ?B) = right - mid"
    using range_split(3) [of "mid + 1" right arr] assms(2-5) by simp
  have arr: "arr = ?P @ ?A @ ?B @ ?S"
    using sp(1) ab by simp
  have bound: "int (length (?P @ ?A @ ?B @ ?S)) \<le> INT_MAX"
    using assms(6) arr by simp
  have tri: "left = int (length ?P)" "mid = int (length ?P) + int (length ?A) - 1"
    "right = int (length ?P) + int (length ?A) + int (length ?B) - 1"
    using sp(2) lenA lenB by simp_all
  note c = tasks_commute_parts [OF assms(1) bound tri]
  show ?thesis
    using c(1) c(2) arr by simp
qed

text \<open>
  The steps of a call of the driver on a split array: the two sorts, the array the merge
  starts from, and the two merges.
\<close>

lemma sort_driver_parts:
  assumes "regular_env env" "int (length (P @ A @ B @ S)) \<le> INT_MAX"
    and "left = int (length P)" "mid = int (length P) + int (length A) - 1"
    and "right = int (length P) + int (length A) + int (length B) - 1"
    and "A \<noteq> []" "B \<noteq> []"
  shows "merge_sort_recursive env (P @ A @ B @ S) left mid = Some (P @ sort_key sint A @ B @ S)"
    and "merge_sort_recursive env (P @ sort_key sint A @ B @ S) (mid + 1) right =
         Some (P @ sort_key sint A @ sort_key sint B @ S)"
    and "subarray (P @ sort_key sint A @ sort_key sint B @ S) left mid = sort_key sint A"
    and "subarray (P @ sort_key sint A @ sort_key sint B @ S) (mid + 1) right = sort_key sint B"
    and "merge_sequential (P @ sort_key sint A @ sort_key sint B @ S) left mid right =
         Some (P @ merge_lists (sort_key sint A) (sort_key sint B) @ S)"
    and "regular_run run left mid right \<Longrightarrow>
         merge_parallel run (P @ sort_key sint A @ sort_key sint B @ S) left mid right =
         Some (P @ merge_lists (sort_key sint A) (sort_key sint B) @ S)"
proof -
  let ?A' = "sort_key sint A" and ?B' = "sort_key sint B"
  show "merge_sort_recursive env (P @ A @ B @ S) left mid = Some (P @ ?A' @ B @ S)"
    using merge_sort_recursive_parts [OF assms(1), of P A "B @ S"] assms(2-4) by simp
  have i1: "mid + 1 = int (length P) + int (length A)"
    using assms(4) by simp
  show "merge_sort_recursive env (P @ ?A' @ B @ S) (mid + 1) right = Some (P @ ?A' @ ?B' @ S)"
    unfolding i1 assms(5)
    using merge_sort_recursive_parts [OF assms(1), of "P @ ?A'" B S] assms(2)
    by simp
  show "subarray (P @ ?A' @ ?B' @ S) left mid = ?A'"
    by (rule subarray_parts) (simp_all add: assms(3,4))
  have "subarray ((P @ ?A') @ ?B' @ S) (mid + 1) right = ?B'"
    by (rule subarray_parts) (simp_all add: assms(4,5))
  then show "subarray (P @ ?A' @ ?B' @ S) (mid + 1) right = ?B'"
    by simp
  have neA: "?A' \<noteq> []"
  proof
    assume e: "?A' = []"
    have "length A = length ?A'" by simp
    also have "\<dots> = 0" unfolding e by simp
    finally show False using assms(6) by simp
  qed
  have neB: "?B' \<noteq> []"
  proof
    assume e: "?B' = []"
    have "length B = length ?B'" by simp
    also have "\<dots> = 0" unfolding e by simp
    finally show False using assms(7) by simp
  qed
  note ne = neA neB
  have bound': "int (length (P @ ?A' @ ?B' @ S)) \<le> INT_MAX"
    using assms(2) by simp
  have tri': "left = int (length P)" "mid = int (length P) + int (length ?A') - 1"
    "right = int (length P) + int (length ?A') + int (length ?B') - 1"
    using assms(3-5) by simp_all
  show "merge_sequential (P @ ?A' @ ?B' @ S) left mid right = Some (P @ merge_lists ?A' ?B' @ S)"
    by (rule merge_sequential_parts [OF ne bound' tri'])
  show "merge_parallel run (P @ ?A' @ ?B' @ S) left mid right = Some (P @ merge_lists ?A' ?B' @ S)"
    if "regular_run run left mid right"
    using that by (rule merge_parallel_parts [OF ne bound' tri'])
qed

section \<open>The check and the harness\<close>

lemma sorted_snoc_iff:
  "sorted (xs @ [x, y]) \<longleftrightarrow> sorted (xs @ [x]) \<and> x \<le> (y::int)"
  by (auto simp: sorted_append)

lemma is_array_sorted_nat:
  "k \<le> length arr \<Longrightarrow> int k \<le> INT_MAX \<Longrightarrow>
   is_array_sorted arr (int k) = Some (if sorted (map sint (take k arr)) then 1 else 0)"
proof (induction k)
  case 0
  show ?case by (simp add: is_array_sorted.simps [of arr 0])
next
  case (Suc k)
  show ?case
  proof (cases k)
    case 0
    then show ?thesis
      using Suc.prems by (cases arr) (simp_all add: is_array_sorted.simps [of _ 1])
  next
    case (Suc m)
    have len: "Suc m < length arr" "m < length arr" using Suc.prems Suc by simp_all
    have s1: "c_sub (int (Suc (Suc m))) 1 = Some (int (Suc m))"
      using Suc.prems Suc by (simp add: c_sub_def c_int_def INT_MIN_def)
    have s2: "c_sub (int (Suc (Suc m))) 2 = Some (int m)"
      using Suc.prems Suc by (simp add: c_sub_def c_int_def INT_MIN_def)
    have tk: "take (Suc (Suc m)) arr = take m arr @ [arr ! m, arr ! Suc m]"
      using len by (simp add: take_Suc_conv_app_nth)
    have tk': "take (Suc m) arr = take m arr @ [arr ! m]"
      using len by (simp add: take_Suc_conv_app_nth)
    have ih: "is_array_sorted arr (int (Suc m)) =
        Some (if sorted (map sint (take (Suc m) arr)) then 1 else 0)"
      using Suc.IH Suc.prems Suc by simp
    have srt: "sorted (map sint (take (Suc (Suc m)) arr)) \<longleftrightarrow>
        sorted (map sint (take (Suc m) arr)) \<and> sint (arr ! m) \<le> sint (arr ! Suc m)"
      unfolding tk tk' using sorted_snoc_iff [of "map sint (take m arr)"] by simp
    show ?thesis
      unfolding Suc
      apply (subst is_array_sorted.simps)
      using ih srt len
      apply (simp add: s1 s2 load_nat del: of_nat_Suc)
      done
  qed
qed

lemma sort_then_check:
  assumes "regular_env env" "0 \<le> N" "N \<le> int (length arr)" "int (length arr) \<le> INT_MAX"
  shows "\<exists>arr'. merge_sort_recursive env arr 0 (N - 1) = Some arr' \<and>
           sorted (map sint (subarray arr' 0 (N - 1))) \<and>
           is_array_sorted arr' N = Some 1"
proof -
  define res where
    "res = take (nat 0) arr @ sort_key sint (subarray arr 0 (N - 1)) @ drop (nat (N - 1 + 1)) arr"
  have p: "(0::int) \<le> 0" "0 \<le> N - 1 + 1" "N - 1 < int (length arr)"
    using assms by simp_all
  note s = sort_in_range(1,2,4) [OF assms(1) p assms(4), folded res_def]
  have tk: "take (nat N) res = subarray res 0 (N - 1)"
    by (simp add: subarray_def)
  have so: "sorted (map sint (subarray res 0 (N - 1)))"
    unfolding s(2) by simp
  have "is_array_sorted res (int (nat N)) =
      Some (if sorted (map sint (take (nat N) res)) then 1 else 0)"
    using assms s(3) by (intro is_array_sorted_nat) simp_all
  then have "is_array_sorted res N = Some 1"
    using so tk assms(2) by simp
  then show ?thesis using s(1) so by blast
qed

lemma main_usage:
  assumes "argv \<noteq> []" "length argv \<noteq> 2"
  shows "main w argv = Some (Return EXIT_FAILURE, [''Error: usage: '' @ hd argv @ '' <n>''])"
  using assms by (cases argv) (simp_all add: main_def)

lemma main_rejected:
  assumes "length argv = 2"
    and "err (strtol w (argv ! 1)) \<noteq> 0 \<or> endpos (strtol w (argv ! 1)) = 0 \<or>
         result (strtol w (argv ! 1)) < 0 \<or> \<not> arr_alloc w"
  shows "exits_with_error (main w argv)"
  using assms by (auto simp: main_def Let_def exits_with_error_def EXIT_FAILURE_def)

lemma main_success:
  assumes "length argv = 2"
    and "err (strtol w (argv ! 1)) = 0" "endpos (strtol w (argv ! 1)) \<noteq> 0"
    and "0 \<le> result (strtol w (argv ! 1))" "result (strtol w (argv ! 1)) \<le> INT_MAX"
    and "arr_alloc w" "regular_env (omp w)"
  shows "main w argv = Some (Return EXIT_SUCCESS, [])"
proof -
  define n where "n = result (strtol w (argv ! 1))"
  define k where "k = nat n"
  have n: "0 \<le> n" "n \<le> INT_MAX" "n = int k"
    using assms(4,5) by (simp_all add: n_def k_def)
  define arr where "arr = map (rand_fill w) [0..<k]"
  have "for_loop (\<lambda>i a. store a i (rand_fill w (nat i))) (int 0) (int k) (replicate k 0) =
      Some (take 0 (replicate k 0) @ map (rand_fill w) [0..<k])"
    using n by (intro for_loop_store) simp_all
  then have fill: "for_loop (\<lambda>i a. store a i (rand_fill w (nat i))) 0 n (replicate (nat n) 0) =
      Some arr"
    by (simp add: arr_def n(3))
  obtain arr' where s: "merge_sort_recursive (omp w) arr 0 (n - 1) = Some arr'"
    "is_array_sorted arr' n = Some 1"
    using sort_then_check [of "omp w" n arr] assms(7) n by (auto simp: arr_def)
  show ?thesis
    unfolding main_def Let_def n_def [symmetric]
    using assms(1,2,3,6) n(1) by (simp add: fill s)
qed

section \<open>Facts about the sample runs\<close>

lemma demo_run_regular: "regular_run demo_run 1 2 4"
  by (simp add: regular_run_def demo_run_def is_schedule_def upto.simps)

lemma in_order_env_regular: "regular_env in_order_env"
  by (simp add: regular_env_def regular_run_def in_order_env_def is_schedule_def)

lemmas strtol_eval = libc_strtol_def isspace_def hex_prefix_def is_digit_def digit_value_def
  digits_value_def Let_def LONG_MAX_def LONG_MIN_def ERANGE_def

lemma strtol_12abc: "libc_strtol ''12abc'' = \<lparr>result = 12, endpos = 2, err = 0\<rparr>"
  by (simp add: strtol_eval)

lemma strtol_12: "libc_strtol ''12'' = \<lparr>result = 12, endpos = 2, err = 0\<rparr>"
  by (simp add: strtol_eval)

lemma strtol_abc: "libc_strtol ''abc'' = \<lparr>result = 0, endpos = 0, err = 0\<rparr>"
  by (simp add: strtol_eval)

lemma strtol_minus5: "libc_strtol ''-5'' = \<lparr>result = - 5, endpos = 2, err = 0\<rparr>"
  by (simp add: strtol_eval)

lemma strtol_huge:
  "libc_strtol ''99999999999999999999'' = \<lparr>result = 9223372036854775807, endpos = 20, err = 34\<rparr>"
  by (simp add: strtol_eval)

text \<open>
  The concrete scenarios of the specification, run through the model, and two runs of a
  merge: one by a team of threads, one with \<open>right\<close> beyond the end of the array.
\<close>

lemma scenario_empty: "merge_sort_recursive in_order_env [] 0 (- 1) = Some []"
  by code_simp

lemma scenario_single: "merge_sort_recursive in_order_env [5] 0 0 = Some [5]"
  by code_simp

lemma scenario_three: "merge_sort_recursive in_order_env [3, 1, 2] 0 2 = Some [1, 2, 3]"
  by code_simp

lemma scenario_reversed:
  "merge_sort_recursive in_order_env [5, 4, 3, 2, 1] 0 4 = Some [1, 2, 3, 4, 5]"
  by code_simp

lemma scenario_duplicates:
  "merge_sort_recursive in_order_env [2, 1, 2, 1] 0 3 = Some [1, 1, 2, 2]"
  by code_simp

lemma scenario_negative:
  "merge_sort_recursive in_order_env [1, - 1, 0] 0 2 = Some [- 1, 0, 1]"
  by code_simp

lemma scenario_parallel_merge:
  "merge_parallel demo_run [5, 1, 4, 2, 3, 9] 1 2 4 = Some [5, 1, 2, 3, 4, 9]"
  by code_simp

lemma scenario_out_of_bounds: "merge_sequential [5, 1, 4, 2, 3, 9] 1 2 6 = None"
  by code_simp

section \<open>The claims about the merges\<close>

text \<open>
  In the theorems below, the indices lie within the array, the length of the array is an
  \<^verbatim>\<open>int\<close>, and a run of \<^verbatim>\<open>merge_parallel\<close> is regular when both of its allocations succeed
  and OpenMP runs every iteration of each copy loop once, in any order.
\<close>

text \<open>
  C3. Let \<open>left \<le> mid < right\<close> be indices of the array, and let \<^verbatim>\<open>arr[left..mid]\<close> and
  \<^verbatim>\<open>arr[mid+1..right]\<close> each be sorted in non-decreasing order. Then
  \<^verbatim>\<open>merge_sequential(arr, left, mid, right)\<close> returns, and so does \<^verbatim>\<open>merge_parallel\<close> in a
  regular run; each leaves \<^verbatim>\<open>arr[left..right]\<close> sorted in non-decreasing order with the
  multiset of values it held before the call.
\<close>

theorem merge_sorts_adjacent_runs:
  assumes "0 \<le> left" "left \<le> mid" "mid < right" "right < int (length arr)"
    and "int (length arr) \<le> INT_MAX"
    and "sorted (map sint (subarray arr left mid))"
    and "sorted (map sint (subarray arr (mid + 1) right))"
    and "regular_run run left mid right"
  shows "(\<exists>arr'. merge_sequential arr left mid right = Some arr' \<and>
            sorted (map sint (subarray arr' left right)) \<and>
            mset (subarray arr' left right) = mset (subarray arr left right)) \<and>
         (\<exists>arr'. merge_parallel run arr left mid right = Some arr' \<and>
            sorted (map sint (subarray arr' left right)) \<and>
            mset (subarray arr' left right) = mset (subarray arr left right))"
proof -
  let ?res = "take (nat left) arr @
      merge_lists (subarray arr left mid) (subarray arr (mid + 1) right) @ drop (nat (right + 1)) arr"
  note m = merge_in_range [OF assms(1-5)]
  have "subarray arr left right = subarray arr left mid @ subarray arr (mid + 1) right"
    using assms(1-3) by (intro subarray_append) simp_all
  then have ms: "mset (subarray ?res left right) = mset (subarray arr left right)"
    by (simp add: m(3) mset_merge_lists)
  have so: "sorted (map sint (subarray ?res left right))"
    unfolding m(3) using assms(6,7) by (rule sorted_merge_lists)
  show ?thesis
    using m(1) m(2) [OF assms(8)] ms so by blast
qed

theorem merge_sorts_adjacent_runs_witness:
  "(\<exists>arr'. merge_sequential [5, 1, 4, 2, 3, 9] 1 2 4 = Some arr' \<and>
      sorted (map sint (subarray arr' 1 4)) \<and>
      mset (subarray arr' 1 4) = mset (subarray [5, 1, 4, 2, 3, 9 :: int32] 1 4)) \<and>
   (\<exists>arr'. merge_parallel demo_run [5, 1, 4, 2, 3, 9] 1 2 4 = Some arr' \<and>
      sorted (map sint (subarray arr' 1 4)) \<and>
      mset (subarray arr' 1 4) = mset (subarray [5, 1, 4, 2, 3, 9 :: int32] 1 4))"
  using merge_sorts_adjacent_runs [of 1 2 4 "[5, 1, 4, 2, 3, 9]" demo_run] demo_run_regular
  by (simp add: INT_MAX_def subarray_def)

text \<open>
  C4. For every array and every triple \<open>left \<le> mid < right\<close>, \<^verbatim>\<open>merge_parallel\<close>, in a
  regular run, does what \<^verbatim>\<open>merge_sequential\<close> does on the same input, whatever the order
  in which the team ran the iterations of the copy loops: the two calls return with the
  same array, or the behaviour of both is undefined (an index outside the array, an
  overflow of an \<^verbatim>\<open>int\<close>). For indices within the array both return.
\<close>

theorem merge_parallel_equals_sequential:
  assumes "left \<le> mid" "mid < right" "regular_run run left mid right"
  shows "merge_parallel run arr left mid right = merge_sequential arr left mid right \<and>
     (0 \<le> left \<and> right < int (length arr) \<and> int (length arr) \<le> INT_MAX \<longrightarrow>
      merge_sequential arr left mid right \<noteq> None)"
proof (intro conjI impI)
  show "merge_parallel run arr left mid right = merge_sequential arr left mid right"
    using assms by (rule merge_parallel_sequential_same)
next
  assume "0 \<le> left \<and> right < int (length arr) \<and> int (length arr) \<le> INT_MAX"
  then show "merge_sequential arr left mid right \<noteq> None"
    using merge_in_range(1) [of left mid right arr] assms(1,2) by simp
qed

theorem merge_parallel_equals_sequential_witness:
  "merge_parallel demo_run [5, 1, 4, 2, 3, 9] 1 2 4 = merge_sequential [5, 1, 4, 2, 3, 9] 1 2 4 \<and>
   merge_sequential [5, 1, 4, 2, 3, 9] 1 2 4 \<noteq> None"
  using merge_parallel_equals_sequential [of 1 2 4 demo_run "[5, 1, 4, 2, 3, 9]"] demo_run_regular
  by (simp add: INT_MAX_def)

text \<open>
  C8. For indices \<open>left \<le> mid < right\<close> of the array, \<^verbatim>\<open>merge_sequential\<close> and
  \<^verbatim>\<open>merge_parallel\<close> (in a regular run) return with an array of the same length in which
  every element at an index outside \<open>[left, right]\<close> has the value it had before the call.
\<close>

theorem merge_frame:
  assumes "0 \<le> left" "left \<le> mid" "mid < right" "right < int (length arr)"
    and "int (length arr) \<le> INT_MAX"
    and "regular_run run left mid right"
  shows "(\<exists>arr'. merge_sequential arr left mid right = Some arr' \<and> length arr' = length arr \<and>
            (\<forall>idx. idx < left \<or> right < idx \<longrightarrow> load arr' idx = load arr idx)) \<and>
         (\<exists>arr'. merge_parallel run arr left mid right = Some arr' \<and> length arr' = length arr \<and>
            (\<forall>idx. idx < left \<or> right < idx \<longrightarrow> load arr' idx = load arr idx))"
  using merge_in_range(1) [OF assms(1-5)] merge_in_range(2) [OF assms(1-5) assms(6)]
    merge_in_range(4) [OF assms(1-5)] merge_in_range(5) [OF assms(1-5)]
  by simp

theorem merge_frame_witness:
  "(\<exists>arr'. merge_sequential [5, 1, 4, 2, 3, 9] 1 2 4 = Some arr' \<and> length arr' = 6 \<and>
      load arr' 0 = Some 5 \<and> load arr' 5 = Some 9) \<and>
   (\<exists>arr'. merge_parallel demo_run [5, 1, 4, 2, 3, 9] 1 2 4 = Some arr' \<and> length arr' = 6 \<and>
      load arr' 0 = Some 5 \<and> load arr' 5 = Some 9)"
proof -
  let ?arr = "[5, 1, 4, 2, 3, 9] :: int32 list"
  have l: "load ?arr 0 = Some 5" "load ?arr 5 = Some 9"
    by (simp_all add: load_def)
  have "(\<exists>arr'. merge_sequential ?arr 1 2 4 = Some arr' \<and> length arr' = length ?arr \<and>
            (\<forall>idx. idx < 1 \<or> 4 < idx \<longrightarrow> load arr' idx = load ?arr idx)) \<and>
        (\<exists>arr'. merge_parallel demo_run ?arr 1 2 4 = Some arr' \<and> length arr' = length ?arr \<and>
            (\<forall>idx. idx < 1 \<or> 4 < idx \<longrightarrow> load arr' idx = load ?arr idx))"
    using demo_run_regular by (intro merge_frame) (simp_all add: INT_MAX_def)
  then obtain a b where
    a: "merge_sequential ?arr 1 2 4 = Some a" "length a = length ?arr"
      "\<And>idx. idx < 1 \<or> 4 < idx \<Longrightarrow> load a idx = load ?arr idx" and
    b: "merge_parallel demo_run ?arr 1 2 4 = Some b" "length b = length ?arr"
      "\<And>idx. idx < 1 \<or> 4 < idx \<Longrightarrow> load b idx = load ?arr idx"
    by blast
  have "load a 0 = Some 5" "load a 5 = Some 9" "load b 0 = Some 5" "load b 5 = Some 9"
    using a(3) [of 0] a(3) [of 5] b(3) [of 0] b(3) [of 5] l by simp_all
  then show ?thesis using a(1,2) b(1,2) by simp
qed



text \<open>
  C5 (what the code does where the claim asks for a reported failure). \<^verbatim>\<open>merge_parallel\<close>
  uses \<^verbatim>\<open>L\<close> and \<^verbatim>\<open>R\<close> without testing them. When \<^verbatim>\<open>calloc\<close> returns the null pointer for
  either, in a call on \<open>left \<le> mid < right\<close>, the copy loop stores through the null pointer:
  the behaviour of the call is undefined (the model has no result), and so is that of the
  sort whose outermost merge this is. The functions return \<^verbatim>\<open>void\<close>: nothing reports
  the failure to the caller.
\<close>

theorem failed_calloc_is_undefined:
  assumes "\<not> L_alloc run \<or> \<not> R_alloc run"
    and "left \<le> mid" "mid < right"
    and "is_schedule (mid - left + 1) (L_sched run)" "is_schedule (right - mid) (R_sched run)"
  shows "merge_parallel run arr left mid right = None \<and>
     (0 \<le> left \<and> right \<le> INT_MAX \<and> 2000 \<le> right - left \<and>
      mid = left + (right - left) div 2 \<and> env left mid right = run \<longrightarrow>
      merge_sort_recursive env arr left right = None)"
proof (intro conjI impI)
  show "merge_parallel run arr left mid right = None"
    using assms by (rule merge_parallel_null)
next
  assume a: "0 \<le> left \<and> right \<le> INT_MAX \<and> 2000 \<le> right - left \<and>
      mid = left + (right - left) div 2 \<and> env left mid right = run"
  have null: "merge_parallel run arr2 left mid right = None" for arr2
    using assms by (rule merge_parallel_null)
  have m: "left + (right - left) div 2 = mid" "env left mid right = run"
    "\<not> right - left < 2000"
    using a by auto
  have "left < right" using a by simp
  then have "merge_sort_recursive env arr left right =
     (let size = right - left; mid = left + size div 2 in
      do {
        arr1 \<leftarrow> merge_sort_recursive env arr left mid;
        arr2 \<leftarrow> merge_sort_recursive env arr1 (mid + 1) right;
        if size < 2000 then merge_sequential arr2 left mid right
        else merge_parallel (env left mid right) arr2 left mid right
      })"
    using a by (intro sort_driver_step) simp_all
  then show "merge_sort_recursive env arr left right = None"
    by (simp add: Let_def m null)
qed

theorem failed_calloc_is_undefined_witness:
  "merge_parallel (out_of_memory_env 0 1 3) [1, 4, 2, 3] 0 1 3 = None \<and>
   merge_sort_recursive out_of_memory_env (replicate 2001 0) 0 2000 = None"
proof -
  have "merge_parallel (out_of_memory_env 0 1 3) [1, 4, 2, 3] 0 1 3 = None"
    using failed_calloc_is_undefined [of "out_of_memory_env 0 1 3" 0 1 3 "[1, 4, 2, 3]"]
    by (simp add: out_of_memory_env_def in_order_env_def is_schedule_def)
  moreover have "merge_sort_recursive out_of_memory_env (replicate 2001 0) 0 2000 = None"
    using failed_calloc_is_undefined
      [of "out_of_memory_env 0 1000 2000" 0 1000 2000 "replicate 2001 0" out_of_memory_env]
    by (simp add: out_of_memory_env_def in_order_env_def is_schedule_def INT_MAX_def)
  ultimately show ?thesis by simp
qed

section \<open>The claims about the sort\<close>

text \<open>
  C1. For every \<open>N \<ge> 0\<close> and every array of at least \<open>N\<close> elements (of exactly \<open>N\<close>
  elements in particular), \<^verbatim>\<open>merge_sort_recursive(arr, 0, N-1)\<close> returns when every run of
  \<^verbatim>\<open>merge_parallel\<close> is regular, and then \<^verbatim>\<open>arr[0..N-1]\<close> is sorted in non-decreasing
  order and \<^verbatim>\<open>is_array_sorted(arr, N)\<close> returns 1.
\<close>

theorem sort_yields_sorted:
  assumes "regular_env env" "0 \<le> N" "N \<le> int (length arr)" "int (length arr) \<le> INT_MAX"
  shows "\<exists>arr'. merge_sort_recursive env arr 0 (N - 1) = Some arr' \<and>
           sorted (map sint (subarray arr' 0 (N - 1))) \<and>
           is_array_sorted arr' N = Some 1"
  using assms by (rule sort_then_check)

theorem sort_yields_sorted_witness:
  "\<exists>arr'. merge_sort_recursive in_order_env [3, 1, 2] 0 2 = Some arr' \<and>
      sorted (map sint (subarray arr' 0 2)) \<and> is_array_sorted arr' 3 = Some 1"
  using sort_yields_sorted [of in_order_env 3 "[3, 1, 2]"] in_order_env_regular
  by (simp add: INT_MAX_def)

text \<open>
  C2. For every array and every range \<open>[left, right]\<close> that is empty (\<open>right < left\<close>) or
  lies within the array, \<^verbatim>\<open>merge_sort_recursive(arr, left, right)\<close> returns when every run
  of \<^verbatim>\<open>merge_parallel\<close> is regular, and the multiset of the values in
  \<^verbatim>\<open>arr[left..right]\<close>, and that of the whole array, is the same after the sort as before.
\<close>

theorem sort_permutes_range:
  assumes "regular_env env"
    and "right < left \<or> (0 \<le> left \<and> right < int (length arr))"
    and "int (length arr) \<le> INT_MAX"
  shows "\<exists>arr'. merge_sort_recursive env arr left right = Some arr' \<and>
           mset (subarray arr' left right) = mset (subarray arr left right) \<and>
           mset arr' = mset arr"
proof (cases "right < left")
  case True
  then have "merge_sort_recursive env arr left right = Some arr"
    by (intro merge_sort_recursive_empty_range) simp
  then show ?thesis by simp
next
  case False
  with assms(2) have p: "0 \<le> left" "left \<le> right + 1" "right < int (length arr)"
    by simp_all
  define res where
    "res = take (nat left) arr @ sort_key sint (subarray arr left right) @ drop (nat (right + 1)) arr"
  note s = sort_in_range(1,2,5) [OF assms(1) p assms(3), folded res_def]
  have "mset (subarray res left right) = mset (subarray arr left right)"
    unfolding s(2) by simp
  then show ?thesis using s(1,3) by simp
qed

theorem sort_permutes_range_witness:
  "(\<exists>arr'. merge_sort_recursive in_order_env [7, 2, 1, 2, 1, 0] 1 4 = Some arr' \<and>
      mset (subarray arr' 1 4) = mset (subarray [7, 2, 1, 2, 1, 0 :: int32] 1 4) \<and>
      mset arr' = mset [7, 2, 1, 2, 1, 0 :: int32]) \<and>
   (\<exists>arr'. merge_sort_recursive in_order_env [7, 2, 1] 5 2 = Some arr' \<and>
      mset (subarray arr' 5 2) = mset (subarray [7, 2, 1 :: int32] 5 2) \<and>
      mset arr' = mset [7, 2, 1 :: int32])"
  using sort_permutes_range [of in_order_env 4 1 "[7, 2, 1, 2, 1, 0]"]
    sort_permutes_range [of in_order_env 2 5 "[7, 2, 1]"] in_order_env_regular
  by (simp add: INT_MAX_def)

text \<open>
  C6. A call with \<open>left < right\<close> (indices of an array, so that \<open>0 \<le> left\<close> and \<open>right\<close> is
  an \<^verbatim>\<open>int\<close>) computes \<open>size = right - left\<close> and \<open>mid = left + size / 2\<close>, sorts
  \<open>[left, mid]\<close> and \<open>[mid + 1, right]\<close>, and then merges, with \<^verbatim>\<open>merge_sequential\<close> when
  \<open>size < 2000\<close> and with \<^verbatim>\<open>merge_parallel\<close> when \<open>size \<ge> 2000\<close>: in every environment the
  call does what this sequence does. When the range lies within the array and every run
  of \<^verbatim>\<open>merge_parallel\<close> is regular, every step returns: the sort of \<open>[left, mid]\<close>, then
  the sort of \<open>[mid + 1, right]\<close>; the two sorts in the other order, with the same array
  (in the second case they are tasks, joined by \<^verbatim>\<open>taskwait\<close>); the merge starts from an
  array in which both halves are sorted; the merge chosen by \<open>size\<close> returns, and what it
  returns is what the call returns. The examples are a range of 3 and a range of 2001
  elements.
\<close>

theorem driver_sorts_halves_then_merges:
  assumes "left < right" "0 \<le> left" "right \<le> INT_MAX"
  shows "(let size = right - left; mid = left + size div 2 in
      merge_sort_recursive env arr left right =
        do {
          arr1 \<leftarrow> merge_sort_recursive env arr left mid;
          arr2 \<leftarrow> merge_sort_recursive env arr1 (mid + 1) right;
          if size < 2000 then merge_sequential arr2 left mid right
          else merge_parallel (env left mid right) arr2 left mid right
        } \<and>
      (regular_env env \<and> right < int (length arr) \<and> int (length arr) \<le> INT_MAX \<longrightarrow>
       (\<exists>arr1 arr2 res.
          merge_sort_recursive env arr left mid = Some arr1 \<and>
          merge_sort_recursive env arr1 (mid + 1) right = Some arr2 \<and>
          do { arr1' \<leftarrow> merge_sort_recursive env arr (mid + 1) right;
               merge_sort_recursive env arr1' left mid } = Some arr2 \<and>
          sorted (map sint (subarray arr2 left mid)) \<and>
          sorted (map sint (subarray arr2 (mid + 1) right)) \<and>
          (if size < 2000 then merge_sequential arr2 left mid right
           else merge_parallel (env left mid right) arr2 left mid right) = Some res \<and>
          merge_sort_recursive env arr left right = Some res)))"
proof -
  define sz where "sz = right - left"
  define mid where "mid = left + sz div 2"
  have step: "merge_sort_recursive env arr left right =
      do {
        arr1 \<leftarrow> merge_sort_recursive env arr left mid;
        arr2 \<leftarrow> merge_sort_recursive env arr1 (mid + 1) right;
        if sz < 2000 then merge_sequential arr2 left mid right
        else merge_parallel (env left mid right) arr2 left mid right
      }"
    using sort_driver_step [OF assms, of env arr] by (simp only: Let_def sz_def mid_def)
  have total: "\<exists>arr1 arr2 res.
      merge_sort_recursive env arr left mid = Some arr1 \<and>
      merge_sort_recursive env arr1 (mid + 1) right = Some arr2 \<and>
      do { arr1' \<leftarrow> merge_sort_recursive env arr (mid + 1) right;
           merge_sort_recursive env arr1' left mid } = Some arr2 \<and>
      sorted (map sint (subarray arr2 left mid)) \<and>
      sorted (map sint (subarray arr2 (mid + 1) right)) \<and>
      (if sz < 2000 then merge_sequential arr2 left mid right
       else merge_parallel (env left mid right) arr2 left mid right) = Some res \<and>
      merge_sort_recursive env arr left right = Some res"
    if reg: "regular_env env" and inb: "right < int (length arr)" "int (length arr) \<le> INT_MAX"
  proof -
    have m: "left \<le> mid" "mid < right"
      using assms(1) unfolding mid_def sz_def by presburger+
    let ?P = "take (nat left) arr" and ?A = "subarray arr left mid"
    let ?B = "subarray arr (mid + 1) right" and ?S = "drop (nat (right + 1)) arr"
    let ?A' = "sort_key sint ?A" and ?B' = "sort_key sint ?B"
    have sp: "arr = ?P @ subarray arr left right @ ?S" "int (length ?P) = left"
      using range_split [of left right arr] assms(1,2) inb(1) by simp_all
    have ab: "subarray arr left right = ?A @ ?B"
      using assms(2) m by (intro subarray_append) simp_all
    have lenA: "int (length ?A) = mid - left + 1"
      using range_split(3) [of left mid arr] assms(2) m inb(1) by simp
    have lenB: "int (length ?B) = right - mid"
      using range_split(3) [of "mid + 1" right arr] assms(2) m inb(1) by simp
    have arr: "arr = ?P @ ?A @ ?B @ ?S"
      using sp(1) ab by simp
    have bound: "int (length (?P @ ?A @ ?B @ ?S)) \<le> INT_MAX"
      using inb(2) arr by simp
    have tri: "left = int (length ?P)" "mid = int (length ?P) + int (length ?A) - 1"
      "right = int (length ?P) + int (length ?A) + int (length ?B) - 1"
      using sp(2) lenA lenB by simp_all
    have ne: "?A \<noteq> []" "?B \<noteq> []"
      using lenA lenB m by auto
    define arr1 where "arr1 = ?P @ ?A' @ ?B @ ?S"
    define arr2 where "arr2 = ?P @ ?A' @ ?B' @ ?S"
    define res where "res = ?P @ merge_lists ?A' ?B' @ ?S"
    note d = sort_driver_parts [OF reg bound tri ne, folded arr1_def arr2_def res_def]
    note c = tasks_commute_parts [OF reg bound tri, folded arr2_def]
    have s2: "merge_sort_recursive env arr1 (mid + 1) right = Some arr2"
      by (rule d(2))
    have h1: "sorted (map sint (subarray arr2 left mid))"
      "sorted (map sint (subarray arr2 (mid + 1) right))"
      unfolding d(3) d(4) by simp_all
    have "regular_run (env left mid right) left mid right"
      using reg by (simp add: regular_env_def)
    then have mp: "merge_parallel (env left mid right) arr2 left mid right = Some res"
      by (rule d(6))
    have mg: "(if sz < 2000 then merge_sequential arr2 left mid right
       else merge_parallel (env left mid right) arr2 left mid right) = Some res"
      using d(5) mp by simp
    have s1': "merge_sort_recursive env arr left mid = Some arr1"
      using d(1) by (simp only: arr [symmetric])
    have c2: "do { arr1' \<leftarrow> merge_sort_recursive env arr (mid + 1) right;
           merge_sort_recursive env arr1' left mid } = Some arr2"
      using c(2) by (simp only: arr [symmetric])
    have all: "merge_sort_recursive env arr left right = Some res"
      unfolding step using s1' s2 mg by simp
    show ?thesis
      using s1' s2 c2 h1 mg all by (intro exI [of _ arr1] exI [of _ arr2] exI [of _ res]) simp
  qed
  show ?thesis
    unfolding Let_def sz_def [symmetric] mid_def [symmetric]
    using step total by blast
qed

theorem driver_sorts_halves_then_merges_witness:
  "(merge_sort_recursive in_order_env [3, 1, 2] 0 2 =
      do {
        arr1 \<leftarrow> merge_sort_recursive in_order_env [3, 1, 2] 0 1;
        arr2 \<leftarrow> merge_sort_recursive in_order_env arr1 2 2;
        merge_sequential arr2 0 1 2
      } \<and>
    (\<exists>arr1 arr2 res.
       merge_sort_recursive in_order_env [3, 1, 2] 0 1 = Some arr1 \<and>
       merge_sort_recursive in_order_env arr1 2 2 = Some arr2 \<and>
       do { arr1' \<leftarrow> merge_sort_recursive in_order_env [3, 1, 2] 2 2;
            merge_sort_recursive in_order_env arr1' 0 1 } = Some arr2 \<and>
       sorted (map sint (subarray arr2 0 1)) \<and>
       sorted (map sint (subarray arr2 2 2)) \<and>
       merge_sequential arr2 0 1 2 = Some res \<and>
       merge_sort_recursive in_order_env [3, 1, 2] 0 2 = Some res)) \<and>
   (merge_sort_recursive in_order_env (replicate 2001 0) 0 2000 =
      do {
        arr1 \<leftarrow> merge_sort_recursive in_order_env (replicate 2001 0) 0 1000;
        arr2 \<leftarrow> merge_sort_recursive in_order_env arr1 1001 2000;
        merge_parallel (in_order_env 0 1000 2000) arr2 0 1000 2000
      } \<and>
    (\<exists>arr1 arr2 res.
       merge_sort_recursive in_order_env (replicate 2001 0) 0 1000 = Some arr1 \<and>
       merge_sort_recursive in_order_env arr1 1001 2000 = Some arr2 \<and>
       do { arr1' \<leftarrow> merge_sort_recursive in_order_env (replicate 2001 0) 1001 2000;
            merge_sort_recursive in_order_env arr1' 0 1000 } = Some arr2 \<and>
       sorted (map sint (subarray arr2 0 1000)) \<and>
       sorted (map sint (subarray arr2 1001 2000)) \<and>
       merge_parallel (in_order_env 0 1000 2000) arr2 0 1000 2000 = Some res \<and>
       merge_sort_recursive in_order_env (replicate 2001 0) 0 2000 = Some res))"
proof -
  have small: "(0::int) < 2" "(0::int) \<le> 0" "(2::int) \<le> INT_MAX"
    "regular_env in_order_env \<and> 2 < int (length [3, 1, 2 :: int32]) \<and>
     int (length [3, 1, 2 :: int32]) \<le> INT_MAX"
    using in_order_env_regular by (simp_all add: INT_MAX_def)
  have big: "(0::int) < 2000" "(0::int) \<le> 0" "(2000::int) \<le> INT_MAX"
    "regular_env in_order_env \<and> 2000 < int (length (replicate 2001 (0 :: int32))) \<and>
     int (length (replicate 2001 (0 :: int32))) \<le> INT_MAX"
    using in_order_env_regular by (simp_all add: INT_MAX_def)
  note s = driver_sorts_halves_then_merges
    [OF small(1-3), of in_order_env "[3, 1, 2]", unfolded Let_def]
  note b = driver_sorts_halves_then_merges
    [OF big(1-3), of in_order_env "replicate 2001 0", unfolded Let_def]
  have eq1: "merge_sort_recursive in_order_env [3, 1, 2] 0 2 =
      do {
        arr1 \<leftarrow> merge_sort_recursive in_order_env [3, 1, 2] 0 1;
        arr2 \<leftarrow> merge_sort_recursive in_order_env arr1 2 2;
        merge_sequential arr2 0 1 2
      }"
    using s [THEN conjunct1] by simp
  have ex1: "\<exists>arr1 arr2 res.
       merge_sort_recursive in_order_env [3, 1, 2] 0 1 = Some arr1 \<and>
       merge_sort_recursive in_order_env arr1 2 2 = Some arr2 \<and>
       do { arr1' \<leftarrow> merge_sort_recursive in_order_env [3, 1, 2] 2 2;
            merge_sort_recursive in_order_env arr1' 0 1 } = Some arr2 \<and>
       sorted (map sint (subarray arr2 0 1)) \<and>
       sorted (map sint (subarray arr2 2 2)) \<and>
       merge_sequential arr2 0 1 2 = Some res \<and>
       merge_sort_recursive in_order_env [3, 1, 2] 0 2 = Some res"
    using s [THEN conjunct2, THEN mp, OF small(4)] by simp
  have eq2: "merge_sort_recursive in_order_env (replicate 2001 0) 0 2000 =
      do {
        arr1 \<leftarrow> merge_sort_recursive in_order_env (replicate 2001 0) 0 1000;
        arr2 \<leftarrow> merge_sort_recursive in_order_env arr1 1001 2000;
        merge_parallel (in_order_env 0 1000 2000) arr2 0 1000 2000
      }"
    using b [THEN conjunct1] by simp
  have ex2: "\<exists>arr1 arr2 res.
       merge_sort_recursive in_order_env (replicate 2001 0) 0 1000 = Some arr1 \<and>
       merge_sort_recursive in_order_env arr1 1001 2000 = Some arr2 \<and>
       do { arr1' \<leftarrow> merge_sort_recursive in_order_env (replicate 2001 0) 1001 2000;
            merge_sort_recursive in_order_env arr1' 0 1000 } = Some arr2 \<and>
       sorted (map sint (subarray arr2 0 1000)) \<and>
       sorted (map sint (subarray arr2 1001 2000)) \<and>
       merge_parallel (in_order_env 0 1000 2000) arr2 0 1000 2000 = Some res \<and>
       merge_sort_recursive in_order_env (replicate 2001 0) 0 2000 = Some res"
    using b [THEN conjunct2, THEN mp, OF big(4)] by simp
  show ?thesis
    by (intro conjI) (fact eq1, fact ex1, fact eq2, fact ex2)
qed

section \<open>The claim about the sortedness check\<close>

text \<open>
  C10. For an array \<open>arr\<close> and a count \<open>0 \<le> n\<close> within the array,
  \<^verbatim>\<open>is_array_sorted(arr, n)\<close> returns 1 if \<^verbatim>\<open>arr[0..n-1]\<close> is in non-decreasing order
  (equal neighbours count as sorted) and 0 otherwise. For \<open>n = 0\<close> and \<open>n = 1\<close> it returns 1
  without reading an element: it does so for every array \<open>other\<close>, the empty one
  included, where any read would be undefined.
\<close>

theorem is_array_sorted_iff_sorted:
  assumes "0 \<le> n" "n \<le> int (length arr)" "n \<le> INT_MAX"
  shows "is_array_sorted arr n = Some (if sorted (map sint (take (nat n) arr)) then 1 else 0) \<and>
         is_array_sorted other 0 = Some 1 \<and> is_array_sorted other 1 = Some 1"
proof -
  have "is_array_sorted arr (int (nat n)) =
      Some (if sorted (map sint (take (nat n) arr)) then 1 else 0)"
    using assms by (intro is_array_sorted_nat) simp_all
  moreover have "is_array_sorted other 0 = Some 1" "is_array_sorted other 1 = Some 1"
    by (simp_all add: is_array_sorted.simps [of other])
  ultimately show ?thesis using assms(1) by simp
qed

theorem is_array_sorted_iff_sorted_witness:
  "is_array_sorted [1, 2, 2] 3 = Some 1 \<and> is_array_sorted [3, 1, 2] 3 = Some 0 \<and>
   is_array_sorted [] 0 = Some 1 \<and> is_array_sorted [] 1 = Some 1"
  using is_array_sorted_iff_sorted [of 3 "[1, 2, 2]" "[]"]
    is_array_sorted_iff_sorted [of 3 "[3, 1, 2]" "[]"]
  by (simp add: INT_MAX_def)

section \<open>The claim about the harness\<close>

text \<open>
  C9, as the program behaves. \<^verbatim>\<open>main\<close> returns a non-zero status after a diagnostic line
  when the number of arguments is wrong, when \<^verbatim>\<open>strtol\<close> sets \<^verbatim>\<open>errno\<close>, when it
  converts no character of the argument (\<^verbatim>\<open>endptr == str\<close>), when the value is negative,
  and when the array cannot be allocated. It returns \<^verbatim>\<open>EXIT_SUCCESS\<close> when \<^verbatim>\<open>strtol\<close>
  converts a prefix of the argument to a value \<open>n\<close> with \<open>0 \<le> n \<le> INT_MAX\<close>, the array
  can be allocated and every run of \<^verbatim>\<open>merge_parallel\<close> is regular. Characters after the
  converted prefix are not looked at.
\<close>

theorem main_exit_status:
  "(argv \<noteq> [] \<and> length argv \<noteq> 2 \<longrightarrow> exits_with_error (main w argv)) \<and>
   (length argv = 2 \<and>
      (err (strtol w (argv ! 1)) \<noteq> 0 \<or> endpos (strtol w (argv ! 1)) = 0 \<or>
       result (strtol w (argv ! 1)) < 0 \<or> \<not> arr_alloc w) \<longrightarrow>
    exits_with_error (main w argv)) \<and>
   (length argv = 2 \<and> err (strtol w (argv ! 1)) = 0 \<and> endpos (strtol w (argv ! 1)) \<noteq> 0 \<and>
      0 \<le> result (strtol w (argv ! 1)) \<and> result (strtol w (argv ! 1)) \<le> INT_MAX \<and>
      arr_alloc w \<and> regular_env (omp w) \<longrightarrow>
    main w argv = Some (Return EXIT_SUCCESS, []))"
proof (intro conjI impI)
  assume "argv \<noteq> [] \<and> length argv \<noteq> 2"
  then show "exits_with_error (main w argv)"
    by (simp add: main_usage exits_with_error_def EXIT_FAILURE_def)
next
  assume "length argv = 2 \<and>
      (err (strtol w (argv ! 1)) \<noteq> 0 \<or> endpos (strtol w (argv ! 1)) = 0 \<or>
       result (strtol w (argv ! 1)) < 0 \<or> \<not> arr_alloc w)"
  then show "exits_with_error (main w argv)"
    by (intro main_rejected) simp_all
next
  assume "length argv = 2 \<and> err (strtol w (argv ! 1)) = 0 \<and> endpos (strtol w (argv ! 1)) \<noteq> 0 \<and>
      0 \<le> result (strtol w (argv ! 1)) \<and> result (strtol w (argv ! 1)) \<le> INT_MAX \<and>
      arr_alloc w \<and> regular_env (omp w)"
  then show "main w argv = Some (Return EXIT_SUCCESS, [])"
    by (intro main_success) simp_all
qed

theorem main_exit_status_witness:
  "exits_with_error (main libc_world [''sort'']) \<and>
   exits_with_error (main libc_world [''sort'', ''5'', ''6'']) \<and>
   exits_with_error (main libc_world [''sort'', ''abc'']) \<and>
   exits_with_error (main libc_world [''sort'', ''-5'']) \<and>
   exits_with_error (main libc_world [''sort'', ''99999999999999999999'']) \<and>
   exits_with_error (main (libc_world\<lparr>arr_alloc := False\<rparr>) [''sort'', ''12'']) \<and>
   main libc_world [''sort'', ''12''] = Some (Return EXIT_SUCCESS, [])"
  using main_exit_status [of "[''sort'']" libc_world]
    main_exit_status [of "[''sort'', ''5'', ''6'']" libc_world]
    main_exit_status [of "[''sort'', ''abc'']" libc_world]
    main_exit_status [of "[''sort'', ''-5'']" libc_world]
    main_exit_status [of "[''sort'', ''99999999999999999999'']" libc_world]
    main_exit_status [of "[''sort'', ''12'']" "libc_world\<lparr>arr_alloc := False\<rparr>"]
    main_exit_status [of "[''sort'', ''12'']" libc_world]
    in_order_env_regular
  by (simp add: libc_world_def strtol_12 strtol_abc strtol_minus5 strtol_huge INT_MAX_def)

text \<open>
  C9 as it is stated fails in two ways. The argument \<^verbatim>\<open>12abc\<close> is not a number, yet
  \<^verbatim>\<open>strtol\<close> converts its prefix \<^verbatim>\<open>12\<close> and leaves \<^verbatim>\<open>endptr\<close> behind it, the program
  sorts 12 elements and returns \<^verbatim>\<open>EXIT_SUCCESS\<close>. And with the valid argument \<^verbatim>\<open>12\<close> the
  program returns \<^verbatim>\<open>EXIT_FAILURE\<close> when \<^verbatim>\<open>calloc\<close> cannot provide the array.
\<close>

theorem main_accepts_trailing_text:
  "main libc_world [''sort'', ''12abc''] = Some (Return EXIT_SUCCESS, []) \<and>
   main (libc_world\<lparr>arr_alloc := False\<rparr>) [''sort'', ''12''] =
     Some (Return EXIT_FAILURE, [''MALLOC ERROR''])"
proof -
  have "main libc_world [''sort'', ''12abc''] = Some (Return EXIT_SUCCESS, [])"
    using in_order_env_regular
    by (intro main_success) (simp_all add: libc_world_def strtol_12abc INT_MAX_def)
  moreover have "main (libc_world\<lparr>arr_alloc := False\<rparr>) [''sort'', ''12''] =
      Some (Return EXIT_FAILURE, [''MALLOC ERROR''])"
    by (simp add: main_def libc_world_def strtol_12)
  ultimately show ?thesis by simp
qed

end
